theory Spec2Isabelle
  imports Complex_Main "HOL-Library.Sublist"
begin

unbundle bit_operations_syntax

section \<open>Values\<close>

text \<open>
  Strings are lists of code points below 256.  In the temperature conversion and the
  tower assignment, where no clause depends on rounding, a Python float is the rational
  it denotes and the missing sentinel \<^verbatim>\<open>np.nan\<close> is \<open>None\<close>.  The unit parser works on
  binary64 floats, type \<open>float64\<close> below.
\<close>

type_synonym pyfloat = "rat option"

datatype py_error = TypeError | ValueError | KeyError | UnicodeDecodeError
  | FileNotFoundError | ParserError

text \<open>Comparison \<^verbatim>\<open>x >= c\<close> of a float with a constant: false when \<open>x\<close> is NaN.\<close>

definition py_ge :: "pyfloat \<Rightarrow> rat \<Rightarrow> bool" where
  "py_ge x c = (case x of None \<Rightarrow> False | Some v \<Rightarrow> c \<le> v)"

text \<open>Decimal rendering of a non-negative integer, as an f-string prints it.\<close>

definition digit_char :: "nat \<Rightarrow> char" where
  "digit_char d = ''0123456789'' ! d"

fun str_nat :: "nat \<Rightarrow> string" where
  "str_nat n = (if n < 10 then [digit_char n] else str_nat (n div 10) @ [digit_char (n mod 10)])"

declare str_nat.simps [simp del]

section \<open>Regular expressions\<close>

text \<open>
  The fragment of Python's \<^verbatim>\<open>re\<close> syntax that the unit patterns use: literal text,
  the classes \<^verbatim>\<open>\d\<close> and \<^verbatim>\<open>\s\<close> under the greedy repetitions \<^verbatim>\<open>*\<close> and \<^verbatim>\<open>+\<close>, the
  greedy option \<^verbatim>\<open>?\<close>, concatenation, and one capturing group.
\<close>

datatype cclass = Digit | Space

definition isdigit :: "char \<Rightarrow> bool" where
  "isdigit c = (c \<in> set ''0123456789'')"

text \<open>The code points below 256 that \<^verbatim>\<open>\s\<close> matches in a \<^verbatim>\<open>str\<close> pattern.\<close>

definition isspace :: "char \<Rightarrow> bool" where
  "isspace c = (c \<in> set [CHR 0x09, CHR 0x0A, CHR 0x0B, CHR 0x0C, CHR 0x0D,
                          CHR 0x1C, CHR 0x1D, CHR 0x1E, CHR 0x1F, CHR 0x20, CHR 0x85, CHR 0xA0])"

fun in_class :: "cclass \<Rightarrow> char \<Rightarrow> bool" where
  "in_class Digit c = isdigit c"
| "in_class Space c = isspace c"

datatype regex = Lit string | Star cclass | Plus cclass | Opt regex | Seq regex regex | Group regex

text \<open>
  A backtracking matcher in continuation-passing style.  \<open>k\<close> is what remains to be
  matched after the current node; alternatives are tried in the priority order of the
  \<^verbatim>\<open>re\<close> engine (longest repetition first, option taken before skipped), and the first
  success is the answer.  \<open>g\<close> is the text of group 1, if it has been set.
\<close>

fun star_match :: "cclass \<Rightarrow> string \<Rightarrow> (string \<Rightarrow> 'a option) \<Rightarrow> 'a option" where
  "star_match c [] k = k []"
| "star_match c (x # xs) k =
     (if in_class c x
      then (case star_match c xs k of Some r \<Rightarrow> Some r | None \<Rightarrow> k (x # xs))
      else k (x # xs))"

fun rmatch :: "regex \<Rightarrow> string \<Rightarrow> string option \<Rightarrow>
    (string \<Rightarrow> string option \<Rightarrow> 'a option) \<Rightarrow> 'a option" where
  "rmatch (Lit l) s g k = (if prefix l s then k (drop (length l) s) g else None)"
| "rmatch (Star c) s g k = star_match c s (\<lambda>s'. k s' g)"
| "rmatch (Plus c) s g k =
     (case s of [] \<Rightarrow> None
      | x # xs \<Rightarrow> if in_class c x then star_match c xs (\<lambda>s'. k s' g) else None)"
| "rmatch (Opt r) s g k = (case rmatch r s g k of Some v \<Rightarrow> Some v | None \<Rightarrow> k s g)"
| "rmatch (Seq a b) s g k = rmatch a s g (\<lambda>s' g'. rmatch b s' g' k)"
| "rmatch (Group r) s g k =
     rmatch r s g (\<lambda>s' g'. k s' (Some (take (length s - length s') s)))"

text \<open>
  \<^verbatim>\<open>re.search\<close>: the start positions are tried from left to right, the end of the string
  included.  The result is \<open>None\<close> for no match, else the text of group 1 of the match.
\<close>

fun re_search :: "regex \<Rightarrow> string \<Rightarrow> string option option" where
  "re_search r [] = rmatch r [] None (\<lambda>s' g. Some g)"
| "re_search r (x # xs) =
     (case rmatch r (x # xs) None (\<lambda>s' g. Some g) of
        Some g \<Rightarrow> Some g
      | None \<Rightarrow> re_search r xs)"

section \<open>Binary64 floats\<close>

text \<open>
  A Python float: a finite value, given by the rational it is (\<open>Finite 0\<close> is \<^verbatim>\<open>0.0\<close>),
  \<^verbatim>\<open>-0.0\<close>, the two infinities, or NaN, which is also the missing sentinel \<^verbatim>\<open>np.nan\<close>.
\<close>

datatype float64 = Finite rat | MinusZero | Inf | MinusInf | Nan

definition pow2 :: "int \<Rightarrow> rat" where
  "pow2 q = (if 0 \<le> q then 2 ^ nat q else 1 / 2 ^ nat (- q))"

text \<open>
  Rounding of a positive rational to binary64, to nearest and ties to even.  \<open>find_exp\<close>
  finds the exponent of the unit in the last place: the least \<open>q\<close> from \<open>-1074\<close> on with
  \<open>x / 2\<^sup>q < 2\<^sup>5\<^sup>3\<close>, so that the significand \<open>x / 2\<^sup>q\<close> has at most 53 bits (fewer for
  a subnormal).  The significand is rounded to an integer, and a result of \<open>2\<^sup>1\<^sup>0\<^sup>2\<^sup>4\<close> or
  more overflows to infinity.
\<close>

function find_exp :: "rat \<Rightarrow> int \<Rightarrow> int" where
  "find_exp x q = (if 2 ^ 53 \<le> x / pow2 q then find_exp x (q + 1) else q)"
  by pat_completeness auto
termination
proof (relation "measure (\<lambda>(x, q). nat \<lfloor>x / pow2 q\<rfloor>)")
  show "wf (measure (\<lambda>(x, q). nat \<lfloor>x / pow2 q\<rfloor>))" by simp
next
  fix x :: rat and q :: int
  assume a: "2 ^ 53 \<le> x / pow2 q"
  let ?y = "x / pow2 q"
  have "pow2 (q + 1) = 2 * pow2 q"
  proof (cases "0 \<le> q")
    case True
    then have "nat (q + 1) = Suc (nat q)" by simp
    then show ?thesis using True by (simp add: pow2_def)
  next
    case False
    then have "nat (- q) = Suc (nat (- (q + 1)))" by simp
    then show ?thesis using False by (simp add: pow2_def)
  qed
  then have eq: "x / pow2 (q + 1) = ?y / 2" by simp
  have "?y / 2 \<le> ?y - 1" using a by simp
  then have "\<lfloor>?y / 2\<rfloor> \<le> \<lfloor>?y - 1\<rfloor>" by (rule floor_mono)
  then have lt: "\<lfloor>?y / 2\<rfloor> < \<lfloor>?y\<rfloor>" by simp
  have pos: "0 < \<lfloor>?y\<rfloor>" using a by simp
  have "nat \<lfloor>x / pow2 (q + 1)\<rfloor> < nat \<lfloor>x / pow2 q\<rfloor>"
    unfolding eq using lt pos by linarith
  then show "((x, q + 1), (x, q)) \<in> measure (\<lambda>(x, q). nat \<lfloor>x / pow2 q\<rfloor>)"
    by simp
qed

declare find_exp.simps [simp del]

definition round_half_even :: "rat \<Rightarrow> int" where
  "round_half_even y =
     (let f = \<lfloor>y\<rfloor>; d = y - of_int f
      in if d < 1 / 2 then f else if 1 / 2 < d then f + 1 else if even f then f else f + 1)"

definition round_pos :: "rat \<Rightarrow> rat" where
  "round_pos x =
     (let q = find_exp x (- 1074) in of_int (round_half_even (x / pow2 q)) * pow2 q)"

definition round64 :: "rat \<Rightarrow> float64" where
  "round64 x =
     (if x = 0 then Finite 0
      else let r = round_pos \<bar>x\<bar> in
        if 2 ^ 1024 \<le> r then (if 0 < x then Inf else MinusInf)
        else if r = 0 then (if 0 < x then Finite 0 else MinusZero)
        else Finite (if 0 < x then r else - r))"

text \<open>Negation, and division by a positive constant such as \<^verbatim>\<open>1000.0\<close>.\<close>

definition float_neg :: "float64 \<Rightarrow> float64" where
  "float_neg x =
     (case x of
        Finite r \<Rightarrow> if r = 0 then MinusZero else Finite (- r)
      | MinusZero \<Rightarrow> Finite 0
      | Inf \<Rightarrow> MinusInf
      | MinusInf \<Rightarrow> Inf
      | Nan \<Rightarrow> Nan)"

definition float_div_const :: "float64 \<Rightarrow> rat \<Rightarrow> float64" where
  "float_div_const x c = (case x of Finite r \<Rightarrow> round64 (r / c) | _ \<Rightarrow> x)"

text \<open>Multiplication by a positive constant, for the comparison in claim C2.\<close>

definition float_mul_const :: "float64 \<Rightarrow> rat \<Rightarrow> float64" where
  "float_mul_const x c = (case x of Finite r \<Rightarrow> round64 (r * c) | _ \<Rightarrow> x)"

text \<open>\<^verbatim>\<open>x == 0\<close>\<close>

definition is_zero :: "float64 \<Rightarrow> bool" where
  "is_zero x = (x = Finite 0 \<or> x = MinusZero)"

section \<open>Unit parsing\<close>

text \<open>\<^verbatim>\<open>\d+(?:\.\d+)?\<close>\<close>

definition number :: regex where
  "number = Seq (Plus Digit) (Opt (Seq (Lit ''.'') (Plus Digit)))"

text \<open>\<^verbatim>\<open>(-?\d+(?:\.\d+)?)\s*dBm\<close>\<close>

definition signal_pattern :: regex where
  "signal_pattern = Seq (Group (Seq (Opt (Lit ''-'')) number)) (Seq (Star Space) (Lit ''dBm''))"

text \<open>\<^verbatim>\<open>(\d+(?:\.\d+)?)\s*ms\<close> and its siblings for \<^verbatim>\<open>Mbps\<close>, \<^verbatim>\<open>Kbps\<close> and \<^verbatim>\<open>%\<close>.\<close>

definition unit_pattern :: "string \<Rightarrow> regex" where
  "unit_pattern u = Seq (Group number) (Seq (Star Space) (Lit u))"

definition latency_pattern :: regex where
  "latency_pattern = unit_pattern ''ms''"

definition mbps_pattern :: regex where
  "mbps_pattern = unit_pattern ''Mbps''"

definition kbps_pattern :: regex where
  "kbps_pattern = unit_pattern ''Kbps''"

definition percent_pattern :: regex where
  "percent_pattern = unit_pattern ''%''"

definition digit_val :: "char \<Rightarrow> nat" where
  "digit_val c = length (takeWhile (\<lambda>d. d \<noteq> c) ''0123456789'')"

definition nat_of_digits :: "string \<Rightarrow> nat" where
  "nat_of_digits ds = foldl (\<lambda>acc c. 10 * acc + digit_val c) 0 ds"

text \<open>
  \<^verbatim>\<open>float(s)\<close> on the numerals the patterns capture: an optional minus sign, digits, and
  optionally a point followed by digits.  The result is the binary64 float nearest to
  the number written.  The other literals that \<^verbatim>\<open>float\<close> accepts (exponents, \<^verbatim>\<open>inf\<close>,
  surrounding blanks) are answered with \<open>ValueError\<close> here; the lemmas \<open>float_group_unit\<close>
  and \<open>float_group_signal\<close> below show that no pattern captures one.
\<close>

definition float_unsigned :: "string \<Rightarrow> py_error + float64" where
  "float_unsigned s =
     (let ip = takeWhile isdigit s; rest = dropWhile isdigit s in
      if ip = [] then Inl ValueError
      else (case rest of
              [] \<Rightarrow> Inr (round64 (of_nat (nat_of_digits ip)))
            | c # fp \<Rightarrow>
                if c = CHR ''.'' \<and> fp \<noteq> [] \<and> list_all isdigit fp
                then Inr (round64
                       (of_nat (nat_of_digits ip) + of_nat (nat_of_digits fp) / 10 ^ length fp))
                else Inl ValueError))"

definition float_of_numeral :: "string \<Rightarrow> py_error + float64" where
  "float_of_numeral s =
     (case s of
        [] \<Rightarrow> Inl ValueError
      | c # t \<Rightarrow>
          if c = CHR ''-''
          then (case float_unsigned t of Inl e \<Rightarrow> Inl e | Inr v \<Rightarrow> Inr (float_neg v))
          else float_unsigned s)"

text \<open>\<^verbatim>\<open>float(match.group(1))\<close>; a group that took no part in the match is \<^verbatim>\<open>None\<close>.\<close>

definition float_group :: "string option \<Rightarrow> py_error + float64" where
  "float_group g = (case g of None \<Rightarrow> Inl TypeError | Some t \<Rightarrow> float_of_numeral t)"

text \<open>
  The four extractors.  The argument is the cell as \<^verbatim>\<open>str(value)\<close> renders it, or \<open>None\<close>
  when \<^verbatim>\<open>pd.isna(value)\<close> holds.
\<close>

definition extract_with :: "regex \<Rightarrow> string option \<Rightarrow> py_error + float64" where
  "extract_with p v =
     (case v of
        None \<Rightarrow> Inr Nan
      | Some s \<Rightarrow>
          (case re_search p s of
             None \<Rightarrow> Inr Nan
           | Some g \<Rightarrow> (case float_group g of Inl e \<Rightarrow> Inl e | Inr x \<Rightarrow> Inr x)))"

definition extract_signal_strength :: "string option \<Rightarrow> py_error + float64" where
  "extract_signal_strength v = extract_with signal_pattern v"

definition extract_latency :: "string option \<Rightarrow> py_error + float64" where
  "extract_latency v = extract_with latency_pattern v"

definition extract_percentage :: "string option \<Rightarrow> py_error + float64" where
  "extract_percentage v = extract_with percent_pattern v"

definition extract_bandwidth :: "string option \<Rightarrow> py_error + float64" where
  "extract_bandwidth v =
     (case v of
        None \<Rightarrow> Inr Nan
      | Some s \<Rightarrow>
          (case re_search mbps_pattern s of
             Some g \<Rightarrow> (case float_group g of Inl e \<Rightarrow> Inl e | Inr x \<Rightarrow> Inr x)
           | None \<Rightarrow>
               (case re_search kbps_pattern s of
                  Some g \<Rightarrow>
                    (case float_group g of
                       Inl e \<Rightarrow> Inl e
                     | Inr x \<Rightarrow> Inr (float_div_const x 1000))
                | None \<Rightarrow> Inr Nan)))"

section \<open>Timestamps\<close>

text \<open>
  \<^verbatim>\<open>pd.to_datetime(col).astype(int) // 10**9\<close>: the parsed instant is a signed count
  of nanoseconds since the epoch, and \<^verbatim>\<open>//\<close> is floor division.
\<close>

definition convert_timestamp :: "int \<Rightarrow> int" where
  "convert_timestamp ns = ns div 10 ^ 9"

definition convert_timestamps :: "int list \<Rightarrow> int list" where
  "convert_timestamps col = map convert_timestamp col"

text \<open>Truncation of a quotient toward zero, for comparison.\<close>

definition trunc_div :: "int \<Rightarrow> int \<Rightarrow> int" where
  "trunc_div a b = sgn a * sgn b * (\<bar>a\<bar> div \<bar>b\<bar>)"

section \<open>Temperature conversion\<close>

text \<open>A cell of a data frame column.\<close>

datatype cell = Str string | Num rat | NaN

text \<open>\<^verbatim>\<open>fahrenheit_to_celsius\<close>; subtracting an integer from a string raises.\<close>

fun fahrenheit_to_celsius :: "cell \<Rightarrow> py_error + cell" where
  "fahrenheit_to_celsius NaN = Inr NaN"
| "fahrenheit_to_celsius (Num f) = Inr (Num ((f - 32) * 5 / 9))"
| "fahrenheit_to_celsius (Str s) = Inl TypeError"

text \<open>\<^verbatim>\<open>Series.apply\<close>: the function is applied to the cells in order; the first raise aborts.\<close>

fun series_apply :: "('a \<Rightarrow> py_error + 'b) \<Rightarrow> 'a list \<Rightarrow> py_error + 'b list" where
  "series_apply f [] = Inr []"
| "series_apply f (x # xs) =
     (case f x of Inl e \<Rightarrow> Inl e
      | Inr y \<Rightarrow> (case series_apply f xs of Inl e \<Rightarrow> Inl e | Inr ys \<Rightarrow> Inr (y # ys)))"

definition is_numeric :: "cell \<Rightarrow> bool" where
  "is_numeric c = (case c of Str s \<Rightarrow> False | _ \<Rightarrow> True)"

section \<open>Cell tower identifiers\<close>

text \<open>
  The body of the loop of \<^verbatim>\<open>create_cell_tower_device_ids\<close> for the row with index
  label \<open>i\<close> and parsed signal strength \<open>sig\<close>.
\<close>

definition cell_tower_device_id :: "nat \<Rightarrow> pyfloat \<Rightarrow> string" where
  "cell_tower_device_id i sig =
     ''did:lcore:cell-tower-'' @
       (if py_ge sig (- 70) then ''tower-'' @ str_nat (i mod 3 + 1)
        else if py_ge sig (- 85) then ''tower-'' @ str_nat (i mod 3 + 4)
        else ''tower-'' @ str_nat (i mod 3 + 7))"

text \<open>The loop over \<^verbatim>\<open>iterrows()\<close> of a frame with the default index \<open>0, 1, 2, \<dots>\<close>.\<close>

definition create_cell_tower_device_ids :: "pyfloat list \<Rightarrow> string list" where
  "create_cell_tower_device_ids col =
     map (\<lambda>(i, sig). cell_tower_device_id i sig) (enumerate 0 col)"

section \<open>Shapes of input text\<close>

text \<open>
  Vocabulary for the statements below: a run of digits, a fraction (nothing, or a point
  and a run of digits), the number that an integer part and a fraction denote, a run of
  white space, and a unit name (text that starts with neither digit, blank nor point).
\<close>

definition is_digits :: "string \<Rightarrow> bool" where
  "is_digits ds = (ds \<noteq> [] \<and> list_all isdigit ds)"

definition is_fraction :: "string \<Rightarrow> bool" where
  "is_fraction fr = (fr = [] \<or> (hd fr = CHR ''.'' \<and> is_digits (tl fr)))"

definition decimal_value :: "string \<Rightarrow> string \<Rightarrow> rat" where
  "decimal_value ip fr =
     of_nat (nat_of_digits ip) +
     (if fr = [] then 0 else of_nat (nat_of_digits (tl fr)) / 10 ^ length (tl fr))"

definition is_blank :: "string \<Rightarrow> bool" where
  "is_blank ws = list_all isspace ws"

definition unit_name :: "string \<Rightarrow> bool" where
  "unit_name u = (u \<noteq> [] \<and> \<not> isdigit (hd u) \<and> \<not> isspace (hd u) \<and> hd u \<noteq> CHR ''.'')"

definition is_sign :: "string \<Rightarrow> bool" where
  "is_sign sg = (sg = [] \<or> sg = ''-'')"

section \<open>Device identifiers\<close>

text \<open>
  \<^verbatim>\<open>str.lower()\<close> on code points below 256: the letters \<^verbatim>\<open>A\<close> to \<^verbatim>\<open>Z\<close> and the upper-case
  letters of Latin-1 (\<^verbatim>\<open>0xC0\<close> to \<^verbatim>\<open>0xDE\<close> without the multiplication sign \<^verbatim>\<open>0xD7\<close>) move
  to their lower-case partners, every other code point stays.
\<close>

definition uppers :: string where
  "uppers = ''ABCDEFGHIJKLMNOPQRSTUVWXYZ'' @
     [CHR 0xC0, CHR 0xC1, CHR 0xC2, CHR 0xC3, CHR 0xC4, CHR 0xC5, CHR 0xC6, CHR 0xC7,
      CHR 0xC8, CHR 0xC9, CHR 0xCA, CHR 0xCB, CHR 0xCC, CHR 0xCD, CHR 0xCE, CHR 0xCF,
      CHR 0xD0, CHR 0xD1, CHR 0xD2, CHR 0xD3, CHR 0xD4, CHR 0xD5, CHR 0xD6,
      CHR 0xD8, CHR 0xD9, CHR 0xDA, CHR 0xDB, CHR 0xDC, CHR 0xDD, CHR 0xDE]"

definition lowers :: string where
  "lowers = ''abcdefghijklmnopqrstuvwxyz'' @
     [CHR 0xE0, CHR 0xE1, CHR 0xE2, CHR 0xE3, CHR 0xE4, CHR 0xE5, CHR 0xE6, CHR 0xE7,
      CHR 0xE8, CHR 0xE9, CHR 0xEA, CHR 0xEB, CHR 0xEC, CHR 0xED, CHR 0xEE, CHR 0xEF,
      CHR 0xF0, CHR 0xF1, CHR 0xF2, CHR 0xF3, CHR 0xF4, CHR 0xF5, CHR 0xF6,
      CHR 0xF8, CHR 0xF9, CHR 0xFA, CHR 0xFB, CHR 0xFC, CHR 0xFD, CHR 0xFE]"

definition lower_char :: "char \<Rightarrow> char" where
  "lower_char c = (case map_of (zip uppers lowers) c of Some l \<Rightarrow> l | None \<Rightarrow> c)"

definition py_lower :: "string \<Rightarrow> string" where
  "py_lower s = map lower_char s"

text \<open>
  \<^verbatim>\<open>s.replace(old, new)\<close>: the occurrences of \<open>old\<close> are replaced from left to right
  without overlap; an empty \<open>old\<close> matches before every character and at the end.
\<close>

function py_replace :: "string \<Rightarrow> string \<Rightarrow> string \<Rightarrow> string" where
  "py_replace old new s =
     (if old = [] then new @ concat (map (\<lambda>c. c # new) s)
      else if s = [] then []
      else if prefix old s then new @ py_replace old new (drop (length old) s)
      else hd s # py_replace old new (tl s))"
  by pat_completeness auto
termination
  by (relation "measure (\<lambda>(old, new, s). length s)") auto

declare py_replace.simps [simp del]

text \<open>Decimal rendering of an integer.\<close>

definition str_int :: "int \<Rightarrow> string" where
  "str_int n = (if n < 0 then ''-'' @ str_nat (nat (- n)) else str_nat (nat n))"

text \<open>Retail: \<^verbatim>\<open>create_store_device_id\<close>, with the number that \<^verbatim>\<open>random.randint(1, 3)\<close> drew.\<close>

definition region_clean :: "string \<Rightarrow> string" where
  "region_clean region = py_replace ''&'' ''and'' (py_replace '' '' ''-'' (py_lower region))"

definition create_store_device_id :: "string \<Rightarrow> int \<Rightarrow> string" where
  "create_store_device_id region store_num =
     ''did:lcore:retail-'' @ region_clean region @ ''-store-'' @ str_int store_num"



text \<open>Agriculture: \<^verbatim>\<open>create_device_ids\<close>, one identifier per row from its \<^verbatim>\<open>plot_id\<close>.\<close>

definition agri_device_id :: "string \<Rightarrow> string" where
  "agri_device_id plot_id = ''did:lcore:agri-'' @ plot_id"

definition create_device_ids :: "string list \<Rightarrow> string list" where
  "create_device_ids plot_ids = map agri_device_id plot_ids"

text \<open>Health: the lambda of \<^verbatim>\<open>convert_device_ids\<close>.\<close>

definition health_device_id :: "string \<Rightarrow> string" where
  "health_device_id x = ''did:lcore:health-tracker-'' @ py_replace ''Device_'' [] x"

definition convert_device_ids :: "string list \<Rightarrow> string list" where
  "convert_device_ids col = map health_device_id col"

text \<open>
  The normalisation of a key in the words of the specification, for comparison: lower
  case, white space to hyphens, and only the characters \<^verbatim>\<open>a\<close> to \<^verbatim>\<open>z\<close>, \<^verbatim>\<open>0\<close> to \<^verbatim>\<open>9\<close> and
  the hyphen kept.
\<close>

definition spec_safe_char :: "char \<Rightarrow> bool" where
  "spec_safe_char c = (c \<in> set ''abcdefghijklmnopqrstuvwxyz0123456789-'')"

definition spec_normalize :: "string \<Rightarrow> string" where
  "spec_normalize key =
     filter spec_safe_char (map (\<lambda>c. if isspace c then CHR ''-'' else lower_char c) key)"

text \<open>What one character of a region name becomes in \<^verbatim>\<open>region_clean\<close>.\<close>

definition clean_char :: "char \<Rightarrow> string" where
  "clean_char c =
     (if c = CHR '' '' then ''-'' else if c = CHR ''&'' then ''and'' else [lower_char c])"

section \<open>The generator of the \<^verbatim>\<open>random\<close> module\<close>















section \<open>Properties of the timestamp conversion\<close>

text \<open>
  Claim C8, as stated, fails before the epoch: half a second before it the code answers
  \<open>-1\<close>, truncation toward zero answers \<open>0\<close>.
\<close>

theorem convert_timestamp_not_truncation:
  "convert_timestamp (- 500000000) = - 1 \<and> trunc_div (- 500000000) (10 ^ 9) = 0"
  by (simp add: convert_timestamp_def trunc_div_def)

text \<open>
  Claim C8, amended: the timestamp is the floor of the parsed time in seconds, the
  greatest whole second not after it; from the epoch on this is truncation toward zero.
\<close>

theorem convert_timestamp_floor:
  "convert_timestamp ns * 10 ^ 9 \<le> ns \<and> ns < (convert_timestamp ns + 1) * 10 ^ 9 \<and>
   (0 \<le> ns \<longrightarrow> convert_timestamp ns = trunc_div ns (10 ^ 9)) \<and>
   length (convert_timestamps col) = length col"
proof -
  have pos: "(0::int) < 10 ^ 9" by simp
  have "ns div 10 ^ 9 * 10 ^ 9 \<le> ns"
    using pos by (metis div_mult_mod_eq le_add_same_cancel1 pos_mod_sign)
  moreover have "ns < (ns div 10 ^ 9 + 1) * 10 ^ 9"
  proof -
    have "ns mod 10 ^ 9 < 10 ^ 9" using pos by (rule pos_mod_bound)
    moreover have "ns = ns div 10 ^ 9 * 10 ^ 9 + ns mod 10 ^ 9" by simp
    ultimately show ?thesis by (simp add: algebra_simps)
  qed
  moreover have "0 \<le> ns \<Longrightarrow> ns div 10 ^ 9 = trunc_div ns (10 ^ 9)"
    by (cases "ns = 0") (simp_all add: trunc_div_def)
  ultimately show ?thesis
    by (simp add: convert_timestamp_def convert_timestamps_def)
qed

theorem convert_timestamp_floor_witness:
  "(0::int) \<le> 1500000000 \<and> convert_timestamp 1500000000 = 1 \<and>
   trunc_div 1500000000 (10 ^ 9) = 1 \<and> convert_timestamps [1500000000, - 1] = [1, - 1]"
proof -
  have "convert_timestamp 1500000000 = trunc_div 1500000000 (10 ^ 9)"
    using convert_timestamp_floor [of 1500000000 "[]"] by simp
  then show ?thesis
    by (simp add: convert_timestamp_def convert_timestamps_def)
qed

section \<open>Properties of the temperature conversion\<close>

lemma series_apply_total:
  "\<forall>x \<in> set xs. \<exists>y. f x = Inr y \<Longrightarrow>
   \<exists>ys. series_apply f xs = Inr ys \<and> length ys = length xs \<and>
        (\<forall>i < length xs. f (xs ! i) = Inr (ys ! i))"
proof (induction xs)
  case Nil
  then show ?case by simp
next
  case (Cons x xs)
  then obtain y where y: "f x = Inr y" by auto
  from Cons obtain ys where ys: "series_apply f xs = Inr ys" "length ys = length xs"
    "\<forall>i < length xs. f (xs ! i) = Inr (ys ! i)" by auto
  have "\<forall>i < length (x # xs). f ((x # xs) ! i) = Inr ((y # ys) ! i)"
    using y ys(3) by (auto simp: nth_Cons split: nat.splits)
  then show ?case using y ys by simp
qed

text \<open>
  Claim C5: the conversion is \<open>(f - 32) * 5 / 9\<close> on a number and missing on a missing
  cell; it sends 32 to 0 and 212 to 100 (exactly, hence within \<open>10\<^sup>-\<^sup>9\<close>); applied to a
  column without text cells it never raises and converts cell by cell.
\<close>

theorem fahrenheit_to_celsius_contract:
  "fahrenheit_to_celsius NaN = Inr NaN \<and>
   fahrenheit_to_celsius (Num f) = Inr (Num ((f - 32) * 5 / 9)) \<and>
   (\<exists>c. fahrenheit_to_celsius (Num 32) = Inr (Num c) \<and> \<bar>c - 0\<bar> \<le> 1 / 10 ^ 9) \<and>
   (\<exists>c. fahrenheit_to_celsius (Num 212) = Inr (Num c) \<and> \<bar>c - 100\<bar> \<le> 1 / 10 ^ 9) \<and>
   ((\<forall>c \<in> set col. is_numeric c) \<longrightarrow>
      (\<exists>out. series_apply fahrenheit_to_celsius col = Inr out \<and> length out = length col \<and>
         (\<forall>i < length col.
            out ! i = (case col ! i of Num x \<Rightarrow> Num ((x - 32) * 5 / 9) | _ \<Rightarrow> NaN))))"
proof -
  have "\<exists>out. series_apply fahrenheit_to_celsius col = Inr out \<and> length out = length col \<and>
         (\<forall>i < length col.
            out ! i = (case col ! i of Num x \<Rightarrow> Num ((x - 32) * 5 / 9) | _ \<Rightarrow> NaN))"
    if num: "\<forall>c \<in> set col. is_numeric c"
  proof -
    have "\<exists>y. fahrenheit_to_celsius c = Inr y" if "is_numeric c" for c
      using that by (cases c) (simp_all add: is_numeric_def)
    with num have "\<forall>c \<in> set col. \<exists>y. fahrenheit_to_celsius c = Inr y"
      by blast
    from series_apply_total [OF this] obtain out
      where out: "series_apply fahrenheit_to_celsius col = Inr out" "length out = length col"
        "\<forall>i < length col. fahrenheit_to_celsius (col ! i) = Inr (out ! i)" by blast
    have "out ! i = (case col ! i of Num x \<Rightarrow> Num ((x - 32) * 5 / 9) | _ \<Rightarrow> NaN)"
      if "i < length col" for i
    proof -
      have "is_numeric (col ! i)" using num that by simp
      moreover have "fahrenheit_to_celsius (col ! i) = Inr (out ! i)" using out(3) that by simp
      ultimately show ?thesis
        by (cases "col ! i") (simp_all add: is_numeric_def)
    qed
    with out show ?thesis by blast
  qed
  then show ?thesis by simp
qed

theorem fahrenheit_to_celsius_contract_witness:
  "list_all is_numeric [Num 68, NaN, Num (- 40)] \<and>
   series_apply fahrenheit_to_celsius [Num 68, NaN, Num (- 40)] = Inr [Num 20, NaN, Num (- 40)]"
proof -
  have h: "\<forall>c \<in> set [Num 68, NaN, Num (- 40)]. is_numeric c"
    by (simp add: is_numeric_def)
  from fahrenheit_to_celsius_contract [of 68 "[Num 68, NaN, Num (- 40)]"] h
  obtain out where "series_apply fahrenheit_to_celsius [Num 68, NaN, Num (- 40)] = Inr out"
    by blast
  then show ?thesis using h by simp
qed

section \<open>Properties of the cell tower identifiers\<close>

lemma mod3_cases: "(i::nat) mod 3 = 0 \<or> i mod 3 = 1 \<or> i mod 3 = 2"
  by arith

text \<open>
  Claim C10: every row of the network data gets one of the nine identifiers
  \<^verbatim>\<open>did:lcore:cell-tower-tower-1\<close> to \<^verbatim>\<open>did:lcore:cell-tower-tower-9\<close>, and a row whose
  signal strength is NaN gets one of the towers 7 to 9.
\<close>

theorem create_cell_tower_device_ids_range:
  "length (create_cell_tower_device_ids col) = length col \<and>
   (\<forall>i < length col.
      create_cell_tower_device_ids col ! i \<in>
        {''did:lcore:cell-tower-tower-1'', ''did:lcore:cell-tower-tower-2'',
         ''did:lcore:cell-tower-tower-3'', ''did:lcore:cell-tower-tower-4'',
         ''did:lcore:cell-tower-tower-5'', ''did:lcore:cell-tower-tower-6'',
         ''did:lcore:cell-tower-tower-7'', ''did:lcore:cell-tower-tower-8'',
         ''did:lcore:cell-tower-tower-9''} \<and>
      (col ! i = None \<longrightarrow>
         create_cell_tower_device_ids col ! i \<in>
           {''did:lcore:cell-tower-tower-7'', ''did:lcore:cell-tower-tower-8'',
            ''did:lcore:cell-tower-tower-9''}))"
proof -
  have one: "cell_tower_device_id i sig \<in>
        {''did:lcore:cell-tower-tower-1'', ''did:lcore:cell-tower-tower-2'',
         ''did:lcore:cell-tower-tower-3'', ''did:lcore:cell-tower-tower-4'',
         ''did:lcore:cell-tower-tower-5'', ''did:lcore:cell-tower-tower-6'',
         ''did:lcore:cell-tower-tower-7'', ''did:lcore:cell-tower-tower-8'',
         ''did:lcore:cell-tower-tower-9''}" for i sig
    using mod3_cases [of i]
    by (auto simp: cell_tower_device_id_def str_nat.simps digit_char_def)
  have nan: "cell_tower_device_id i None \<in>
        {''did:lcore:cell-tower-tower-7'', ''did:lcore:cell-tower-tower-8'',
         ''did:lcore:cell-tower-tower-9''}" for i
    using mod3_cases [of i]
    by (auto simp: cell_tower_device_id_def py_ge_def str_nat.simps digit_char_def)
  have nth: "create_cell_tower_device_ids col ! i = cell_tower_device_id i (col ! i)"
    if "i < length col" for i
    using that by (simp add: create_cell_tower_device_ids_def nth_enumerate_eq)
  have len: "length (create_cell_tower_device_ids col) = length col"
    by (simp add: create_cell_tower_device_ids_def)
  show ?thesis
    using one nan len by (metis nth)
qed

theorem create_cell_tower_device_ids_range_witness:
  "create_cell_tower_device_ids [None, Some (- 60), Some (- 80), Some (- 90), None] =
     [''did:lcore:cell-tower-tower-7'', ''did:lcore:cell-tower-tower-2'',
      ''did:lcore:cell-tower-tower-6'', ''did:lcore:cell-tower-tower-7'',
      ''did:lcore:cell-tower-tower-8''] \<and>
   (4::nat) < length [None, Some (- 60), Some (- 80), Some (- 90), None :: pyfloat] \<and>
   [None, Some (- 60), Some (- 80), Some (- 90), None :: pyfloat] ! 4 = None \<and>
   create_cell_tower_device_ids [None, Some (- 60), Some (- 80), Some (- 90), None] ! 4 \<in>
     {''did:lcore:cell-tower-tower-7'', ''did:lcore:cell-tower-tower-8'',
      ''did:lcore:cell-tower-tower-9''}"
proof -
  have h: "(4::nat) < length [None, Some (- 60), Some (- 80), Some (- 90), None :: pyfloat]"
    "[None, Some (- 60), Some (- 80), Some (- 90), None :: pyfloat] ! 4 = None"
    by simp_all
  have "create_cell_tower_device_ids [None, Some (- 60), Some (- 80), Some (- 90), None] ! 4 \<in>
     {''did:lcore:cell-tower-tower-7'', ''did:lcore:cell-tower-tower-8'',
      ''did:lcore:cell-tower-tower-9''}"
    using create_cell_tower_device_ids_range
            [of "[None, Some (- 60), Some (- 80), Some (- 90), None]"] h
    by blast
  moreover have "create_cell_tower_device_ids [None, Some (- 60), Some (- 80), Some (- 90), None] =
     [''did:lcore:cell-tower-tower-7'', ''did:lcore:cell-tower-tower-2'',
      ''did:lcore:cell-tower-tower-6'', ''did:lcore:cell-tower-tower-7'',
      ''did:lcore:cell-tower-tower-8'']"
    by (simp add: create_cell_tower_device_ids_def cell_tower_device_id_def py_ge_def
        str_nat.simps digit_char_def)
  ultimately show ?thesis using h by blast
qed

section \<open>Rounding to binary64\<close>

text \<open>
  Where rounding is exact or near, where it underflows to zero, and how it commutes with
  negation.
\<close>

lemma pow2_pos: "0 < pow2 q"
  by (simp add: pow2_def)

lemma pow2_Suc: "pow2 (q + 1) = 2 * pow2 q"
proof (cases "0 \<le> q")
  case True
  then have "nat (q + 1) = Suc (nat q)" by simp
  then show ?thesis using True by (simp add: pow2_def)
next
  case False
  then have "nat (- q) = Suc (nat (- (q + 1)))" by simp
  then show ?thesis using False by (simp add: pow2_def)
qed

lemma pow2_add: "pow2 (a + int n) = 2 ^ n * pow2 a"
proof (induction n)
  case 0
  then show ?case by simp
next
  case (Suc n)
  have "a + int (Suc n) = (a + int n) + 1" by simp
  then have "pow2 (a + int (Suc n)) = pow2 ((a + int n) + 1)" by (rule arg_cong)
  also have "\<dots> = 2 * pow2 (a + int n)" by (rule pow2_Suc)
  finally show ?case using Suc by simp
qed

lemma find_exp_normal:
  assumes "q0 \<le> q" "2 ^ 52 \<le> x / pow2 q" "x / pow2 q < 2 ^ 53"
  shows "find_exp x q0 = q"
  using assms(1)
proof (induction "nat (q - q0)" arbitrary: q0)
  case 0
  then have "q0 = q" by simp
  then show ?case using assms(3) by (subst find_exp.simps) simp
next
  case (Suc n)
  then have lt: "q0 < q" and n: "n = nat (q - (q0 + 1))" and le: "q0 + 1 \<le> q" by simp_all
  obtain k where k: "q = q0 + 1 + int k" using le by (metis zle_iff_zadd)
  have "pow2 q = 2 ^ k * (2 * pow2 q0)" unfolding k by (simp add: pow2_add pow2_Suc)
  then have e: "x / pow2 q0 = 2 * (x / pow2 q) * 2 ^ k" using pow2_pos [of q0] by simp
  have nn: "0 \<le> 2 * (x / pow2 q)"
  proof -
    have "(0::rat) \<le> 2 ^ 52" by simp
    then have "0 \<le> x / pow2 q" using assms(2) by (rule order_trans)
    then show ?thesis by simp
  qed
  have "2 * (x / pow2 q) * 1 \<le> 2 * (x / pow2 q) * 2 ^ k"
    using nn by (intro mult_left_mono) simp_all
  then have "2 * (x / pow2 q) \<le> x / pow2 q0"
    unfolding e by simp
  then have "2 ^ 53 \<le> x / pow2 q0" using assms(2) by simp
  then show ?case using Suc(1) [OF n le] by (subst find_exp.simps) simp
qed

lemma round_half_even_near:
  assumes "\<bar>y - of_int m\<bar> < 1 / 2"
  shows "round_half_even y = m"
proof -
  consider "of_int m \<le> y" | "y < of_int m" by linarith
  then show ?thesis
  proof cases
    case 1
    then have "\<lfloor>y\<rfloor> = m" using assms by (intro floor_unique) (simp_all add: abs_if split: if_splits)
    then show ?thesis using assms 1 by (simp add: round_half_even_def Let_def abs_if)
  next
    case 2
    then have f: "\<lfloor>y\<rfloor> = m - 1" using assms by (intro floor_unique) (simp_all add: abs_if split: if_splits)
    then show ?thesis using assms 2 by (simp add: round_half_even_def Let_def abs_if)
  qed
qed

lemma round_pos_normal:
  assumes "- 1074 \<le> q" "2 ^ 52 \<le> x / pow2 q" "x / pow2 q < 2 ^ 53"
    "\<bar>x / pow2 q - of_int m\<bar> < 1 / 2"
  shows "round_pos x = of_int m * pow2 q"
  using find_exp_normal [OF assms(1,2,3)] round_half_even_near [OF assms(4)]
  by (simp add: round_pos_def)

lemma round_pos_subnormal:
  assumes "x / pow2 (- 1074) < 2 ^ 53" "\<bar>x / pow2 (- 1074) - of_int m\<bar> < 1 / 2"
  shows "round_pos x = of_int m * pow2 (- 1074)"
proof -
  have "find_exp x (- 1074) = - 1074" using assms(1) by (subst find_exp.simps) simp
  then show ?thesis using round_half_even_near [OF assms(2)] by (simp add: round_pos_def)
qed


lemma find_exp_props:
  "q0 \<le> find_exp x q0 \<and> x / pow2 (find_exp x q0) < 2 ^ 53 \<and>
   (find_exp x q0 = q0 \<or> 2 ^ 52 \<le> x / pow2 (find_exp x q0))"
proof (induction x q0 rule: find_exp.induct)
  case (1 x q)
  show ?case
  proof (cases "2 ^ 53 \<le> x / pow2 q")
    case False
    then have "find_exp x q = q" by (subst find_exp.simps) simp
    then show ?thesis using False by simp
  next
    case True
    then have eq: "find_exp x q = find_exp x (q + 1)" by (subst find_exp.simps) simp
    from 1 [OF True] have ih: "q + 1 \<le> find_exp x (q + 1)"
      "x / pow2 (find_exp x (q + 1)) < 2 ^ 53"
      "find_exp x (q + 1) = q + 1 \<or> 2 ^ 52 \<le> x / pow2 (find_exp x (q + 1))"
      by simp_all
    have "2 ^ 52 \<le> x / pow2 (q + 1)" using True by (simp add: pow2_Suc)
    then have "2 ^ 52 \<le> x / pow2 (find_exp x (q + 1))" using ih(3) by auto
    then show ?thesis using ih(1,2) eq by simp
  qed
qed

lemma round_half_even_ge_floor: "\<lfloor>y\<rfloor> \<le> round_half_even y"
  by (simp add: round_half_even_def Let_def)

lemma round_half_even_nonneg: "0 \<le> y \<Longrightarrow> 0 \<le> round_half_even y"
  using round_half_even_ge_floor [of y] by (simp add: order_trans [of 0 "\<lfloor>y\<rfloor>"])

lemma round_pos_nonneg: "0 \<le> x \<Longrightarrow> 0 \<le> round_pos x"
  using pow2_pos [of "find_exp x (- 1074)"]
  by (simp add: round_pos_def Let_def round_half_even_nonneg less_imp_le)

lemma round_pos_underflow:
  assumes "0 \<le> x" "x \<le> pow2 (- 1075)"
  shows "round_pos x = 0"
proof -
  have h: "pow2 (- 1075) = pow2 (- 1074) / 2"
    using pow2_Suc [of "- 1075"] by simp
  define y where "y = x / pow2 (- 1074)"
  have y0: "0 \<le> y"
    using assms(1) pow2_pos [of "- 1074"] by (simp add: y_def)
  have "x \<le> pow2 (- 1074) / 2" using assms(2) h by simp
  then have "y \<le> (pow2 (- 1074) / 2) / pow2 (- 1074)"
    unfolding y_def using pow2_pos [of "- 1074"] by (intro divide_right_mono) simp_all
  also have "\<dots> = 1 / 2" using pow2_pos [of "- 1074"] by simp
  finally have y1: "y \<le> 1 / 2" .
  have "(1 / 2 :: rat) < 2 ^ 53" by simp
  with y1 have "y < 2 ^ 53" by (rule le_less_trans)
  then have q: "find_exp x (- 1074) = - 1074"
    unfolding y_def by (subst find_exp.simps) simp
  have "(1 / 2 :: rat) < 1" by simp
  with y1 have "y < 1" by (rule le_less_trans)
  then have f: "\<lfloor>y\<rfloor> = 0" using y0 by (intro floor_unique) simp_all
  have "round_half_even y = 0"
    using y1 f by (simp add: round_half_even_def Let_def)
  then show ?thesis by (simp add: round_pos_def q y_def)
qed

lemma pow2_mono: "a \<le> b \<Longrightarrow> pow2 a \<le> pow2 b"
proof -
  assume "a \<le> b"
  then obtain k where "b = a + int k" by (metis zle_iff_zadd)
  then have "pow2 b = 2 ^ k * pow2 a" by (simp add: pow2_add)
  moreover have "(1::rat) \<le> 2 ^ k" by simp
  ultimately show ?thesis using pow2_pos [of a] by (simp add: mult_le_cancel_right1)
qed

lemma round_pos_ge_pow2:
  assumes "- 1074 \<le> e" "pow2 e \<le> x"
  shows "pow2 e \<le> round_pos x"
proof -
  define q where "q = find_exp x (- 1074)"
  define y where "y = x / pow2 q"
  have q: "- 1074 \<le> q" "q = - 1074 \<or> 2 ^ 52 \<le> y"
    using find_exp_props [of "- 1074" x] by (simp_all add: q_def y_def)
  have r: "round_pos x = of_int (round_half_even y) * pow2 q"
    by (simp add: round_pos_def q_def y_def Let_def)
  show ?thesis
  proof (cases "q \<le> e")
    case True
    then obtain k where k: "e = q + int k" by (metis zle_iff_zadd)
    then have pe: "pow2 e = 2 ^ k * pow2 q" by (simp add: pow2_add)
    then have "2 ^ k \<le> y" using assms(2) pow2_pos [of q] by (simp add: y_def pos_le_divide_eq)
    then have "(2 ^ k :: int) \<le> \<lfloor>y\<rfloor>" by (simp add: le_floor_iff)
    then have "(2 ^ k :: int) \<le> round_half_even y"
      using round_half_even_ge_floor [of y] by linarith
    then have "(2 ^ k :: rat) \<le> of_int (round_half_even y)"
      by (metis of_int_le_iff of_int_numeral of_int_power)
    then show ?thesis unfolding r pe using pow2_pos [of q] by (simp add: mult_right_mono)
  next
    case False
    then have "q \<noteq> - 1074" using assms(1) by simp
    then have "2 ^ 52 \<le> y" using q(2) by simp
    then have "(2 ^ 52 :: int) \<le> \<lfloor>y\<rfloor>" by (simp add: le_floor_iff)
    moreover have "(1 :: int) \<le> 2 ^ 52" by simp
    ultimately have "(1 :: int) \<le> round_half_even y"
      using round_half_even_ge_floor [of y] by linarith
    then have "(1 :: rat) \<le> of_int (round_half_even y)" by simp
    then have "pow2 q \<le> round_pos x"
      unfolding r using pow2_pos [of q] by (simp add: mult_le_cancel_right2)
    moreover have "pow2 e \<le> pow2 q" using False by (intro pow2_mono) simp
    ultimately show ?thesis by simp
  qed
qed

lemma round_pos_nonzero:
  assumes "pow2 (- 1075) < x"
  shows "pow2 (- 1074) \<le> round_pos x"
proof -
  define q where "q = find_exp x (- 1074)"
  define y where "y = x / pow2 q"
  have q: "- 1074 \<le> q" "q = - 1074 \<or> 2 ^ 52 \<le> y"
    using find_exp_props [of "- 1074" x] by (simp_all add: q_def y_def)
  have r: "round_pos x = of_int (round_half_even y) * pow2 q"
    by (simp add: round_pos_def q_def y_def Let_def)
  have "(1 :: int) \<le> round_half_even y"
  proof (cases "q = - 1074")
    case True
    have h: "pow2 (- 1075) = pow2 (- 1074) / 2"
      using pow2_Suc [of "- 1075"] by simp
    have "pow2 (- 1074) / 2 < x" using assms h by simp
    then have "(pow2 (- 1074) / 2) / pow2 (- 1074) < y"
      unfolding y_def True using pow2_pos [of "- 1074"] by (intro divide_strict_right_mono) simp_all
    moreover have "(pow2 (- 1074) / 2) / pow2 (- 1074) = 1 / 2"
      using pow2_pos [of "- 1074"] by simp
    ultimately have y: "1 / 2 < y" by simp
    have "(0::rat) \<le> 1 / 2" by simp
    then have "0 \<le> y" using y by linarith
    then have f0: "0 \<le> \<lfloor>y\<rfloor>" by simp
    show ?thesis
    proof (cases "\<lfloor>y\<rfloor> = 0")
      case True
      then have "1 / 2 < y - of_int \<lfloor>y\<rfloor>" using y by simp
      then show ?thesis using True by (simp add: round_half_even_def Let_def)
    next
      case False
      then have "1 \<le> \<lfloor>y\<rfloor>" using f0 by linarith
      then show ?thesis using round_half_even_ge_floor [of y] by linarith
    qed
  next
    case False
    then have "2 ^ 52 \<le> y" using q(2) by simp
    then have "(2 ^ 52 :: int) \<le> \<lfloor>y\<rfloor>" by (simp add: le_floor_iff)
    moreover have "(1 :: int) \<le> 2 ^ 52" by simp
    ultimately show ?thesis using round_half_even_ge_floor [of y] by linarith
  qed
  then have "(1 :: rat) \<le> of_int (round_half_even y)" by simp
  then have "pow2 q \<le> round_pos x"
    unfolding r using pow2_pos [of q] by (simp add: mult_le_cancel_right2)
  moreover have "pow2 (- 1074) \<le> pow2 q" using q(1) by (rule pow2_mono)
  ultimately show ?thesis by simp
qed


lemma round64_normal:
  assumes "0 < x" "- 1074 \<le> q" "2 ^ 52 \<le> x / pow2 q" "x / pow2 q < 2 ^ 53"
    "\<bar>x / pow2 q - of_int m\<bar> < 1 / 2" "of_int m * pow2 q < 2 ^ 1024"
  shows "round64 x = Finite (of_int m * pow2 q)"
proof -
  have r: "round_pos x = of_int m * pow2 q"
    by (rule round_pos_normal [OF assms(2,3,4,5)])
  have "pow2 q \<le> x"
  proof -
    have "(1::rat) \<le> 2 ^ 52" by simp
    then have "1 \<le> x / pow2 q" using assms(3) by (rule order_trans)
    then show ?thesis using pow2_pos [of q] by (simp add: pos_le_divide_eq)
  qed
  then have "pow2 q \<le> round_pos x" using assms(2) by (intro round_pos_ge_pow2)
  then have "0 < round_pos x" using pow2_pos [of q] by linarith
  then show ?thesis using assms(1,6) r by (simp add: round64_def Let_def)
qed

lemma round64_neg:
  assumes "0 < x"
  shows "round64 (- x) = float_neg (round64 x)"
proof -
  have "0 \<le> round_pos x" using assms by (intro round_pos_nonneg) simp
  then show ?thesis using assms by (auto simp: round64_def Let_def float_neg_def)
qed

lemma round64_zero_iff:
  assumes "0 \<le> x"
  shows "is_zero (round64 x) \<longleftrightarrow> x \<le> pow2 (- 1075)"
proof (cases "x = 0")
  case True
  then show ?thesis using pow2_pos [of "- 1075"] by (simp add: round64_def is_zero_def less_imp_le)
next
  case False
  then have pos: "0 < x" using assms by simp
  show ?thesis
  proof (cases "x \<le> pow2 (- 1075)")
    case True
    then have "round_pos x = 0" using assms by (intro round_pos_underflow)
    then show ?thesis using pos True by (simp add: round64_def is_zero_def)
  next
    case False
    then have "pow2 (- 1074) \<le> round_pos x" by (intro round_pos_nonzero) simp
    then have "0 < round_pos x" using pow2_pos [of "- 1074"] by linarith
    then show ?thesis using pos False by (auto simp: round64_def Let_def is_zero_def)
  qed
qed

lemma round64_finite_ge:
  assumes "- 1074 \<le> e" "pow2 e \<le> x" "round64 x = Finite r"
  shows "pow2 e \<le> r"
proof -
  have pos: "0 < x" using assms(2) pow2_pos [of e] by linarith
  have ge: "pow2 e \<le> round_pos x" using assms(1,2) by (rule round_pos_ge_pow2)
  then have "0 < round_pos x" using pow2_pos [of e] by linarith
  then have "r = round_pos x"
    using assms(3) pos by (auto simp: round64_def Let_def split: if_splits)
  then show ?thesis using ge by simp
qed

lemma div_const_zero:
  assumes "0 \<le> x" "is_zero (float_div_const (round64 x) 1000)"
  shows "x < pow2 (- 1065)"
proof (rule ccontr)
  assume "\<not> x < pow2 (- 1065)"
  then have ge: "pow2 (- 1065) \<le> x" by simp
  then have pos: "0 < x" using pow2_pos [of "- 1065"] by linarith
  have "0 < round_pos x"
    using round_pos_ge_pow2 [of "- 1065" x] ge pow2_pos [of "- 1065"] by simp
  then have "round64 x = Inf \<or> round64 x = Finite (round_pos x)"
    using pos by (cases "2 ^ 1024 \<le> round_pos x") (simp_all add: round64_def Let_def)
  then consider "round64 x = Inf" | r where "round64 x = Finite r"
    by blast
  then show False
  proof cases
    case 1
    then show False using assms(2) by (simp add: float_div_const_def is_zero_def)
  next
    case 2
    have r: "pow2 (- 1065) \<le> r"
      by (rule round64_finite_ge [of "- 1065" x]) (simp_all add: ge 2)
    have z: "is_zero (round64 (r / 1000))" using assms(2) 2 by (simp add: float_div_const_def)
    have rp: "0 < r" using r pow2_pos [of "- 1065"] by linarith
    then have "0 \<le> r / 1000" by simp
    then have "r / 1000 \<le> pow2 (- 1075)" using z round64_zero_iff [of "r / 1000"] by blast
    then have le: "r \<le> 1000 * pow2 (- 1075)" by (simp add: pos_divide_le_eq mult.commute)
    have e: "pow2 (- 1065) = 1024 * pow2 (- 1075)"
      using pow2_add [of "- 1075" 10] by simp
    have "1000 * pow2 (- 1075) < 1024 * pow2 (- 1075)"
      using pow2_pos [of "- 1075"] by simp
    then show False using r le unfolding e by linarith
  qed
qed


lemma round64_0: "round64 0 = Finite 0"
  by (simp add: round64_def)

lemma round64_10: "round64 10 = Finite 10"
  by (rule round64_normal [where q = "- 49" and m = 5629499534213120, THEN trans])
    (simp_all add: pow2_def)

lemma round64_5: "round64 5 = Finite 5"
  by (rule round64_normal [where q = "- 50" and m = 5629499534213120, THEN trans])
    (simp_all add: pow2_def)

lemma round64_75: "round64 75 = Finite 75"
  by (rule round64_normal [where q = "- 46" and m = 5277655813324800, THEN trans])
    (simp_all add: pow2_def)

lemma round64_100: "round64 100 = Finite 100"
  by (rule round64_normal [where q = "- 46" and m = 7036874417766400, THEN trans])
    (simp_all add: pow2_def)

lemma round64_21_2: "round64 (21 / 2) = Finite (21 / 2)"
  by (rule round64_normal [where q = "- 49" and m = 5910974510923776, THEN trans])
    (simp_all add: pow2_def)

lemma round64_151_2: "round64 (151 / 2) = Finite (151 / 2)"
  by (rule round64_normal [where q = "- 46" and m = 5312840185413632, THEN trans])
    (simp_all add: pow2_def)

lemma round64_1_10: "round64 (1 / 10) = Finite (3602879701896397 / 36028797018963968)"
  by (rule round64_normal [where q = "- 56" and m = 7205759403792794, THEN trans])
    (simp_all add: pow2_def)

text \<open>
  \<^verbatim>\<open>3.97\<close>, \<^verbatim>\<open>3.97 / 1000.0\<close> which prints as \<^verbatim>\<open>0.0039700000000000004\<close>, and that times
  \<^verbatim>\<open>1000.0\<close>, which is \<^verbatim>\<open>3.9700000000000006\<close>.
\<close>

lemma round64_397: "round64 (397 / 100) = Finite (8939645260330435 / 2251799813685248)"
  by (rule round64_normal [where q = "- 51" and m = 8939645260330435, THEN trans])
    (simp_all add: pow2_def)

lemma round64_397_div:
  "round64 (8939645260330435 / 2251799813685248 / 1000) =
   Finite (4577098373289183 / 1152921504606846976)"
  by (rule round64_normal [where q = "- 60" and m = 4577098373289183, THEN trans])
    (simp_all add: pow2_def)

lemma round64_397_mul:
  "round64 (4577098373289183 / 1152921504606846976 * 1000) =
   Finite (2234911315082609 / 562949953421312)"
  by (rule round64_normal [where q = "- 51" and m = 8939645260330436, THEN trans])
    (simp_all add: pow2_def)

section \<open>The matcher on its first path\<close>

text \<open>
  When the greedy choice at every node leads to a match, that match is the answer.
\<close>

lemma star_match_greedy:
  "list_all (in_class c) ds \<Longrightarrow> (case rest of [] \<Rightarrow> True | x # _ \<Rightarrow> \<not> in_class c x) \<Longrightarrow>
   k rest = Some v \<Longrightarrow> star_match c (ds @ rest) k = Some v"
proof (induction ds)
  case Nil
  then show ?case by (cases rest) simp_all
next
  case (Cons d ds)
  then show ?case by simp
qed

lemma plus_match_greedy:
  "ds \<noteq> [] \<Longrightarrow> list_all (in_class c) ds \<Longrightarrow> (case rest of [] \<Rightarrow> True | x # _ \<Rightarrow> \<not> in_class c x) \<Longrightarrow>
   k rest g = Some v \<Longrightarrow> rmatch (Plus c) (ds @ rest) g k = Some v"
  by (cases ds) (simp_all add: star_match_greedy)

lemma number_greedy:
  assumes ip: "is_digits ip" and fr: "is_fraction fr"
    and rest: "case rest of [] \<Rightarrow> True | x # _ \<Rightarrow> \<not> isdigit x \<and> x \<noteq> CHR ''.''"
    and k: "k rest g = Some v"
  shows "rmatch number (ip @ fr @ rest) g k = Some v"
proof (cases "fr = []")
  case True
  have nd: "case rest of [] \<Rightarrow> True | x # _ \<Rightarrow> \<not> in_class Digit x"
    using rest by (cases rest) simp_all
  have np: "\<not> prefix ''.'' rest"
    using rest by (cases rest) auto
  have "rmatch (Opt (Seq (Lit ''.'') (Plus Digit))) rest g k = Some v"
    using np k by simp
  then have "rmatch (Plus Digit) (ip @ rest) g (\<lambda>s' g'. rmatch (Opt (Seq (Lit ''.'') (Plus Digit))) s' g' k) = Some v"
    using ip nd by (intro plus_match_greedy) (simp_all add: is_digits_def list_all_iff)
  then show ?thesis using True by (simp add: number_def)
next
  case False
  then obtain fp where fp: "fr = CHR ''.'' # fp" "is_digits fp"
    using fr by (cases fr) (auto simp: is_fraction_def)
  have nd: "case rest of [] \<Rightarrow> True | x # _ \<Rightarrow> \<not> in_class Digit x"
    using rest by (cases rest) simp_all
  have nd2: "case fr @ rest of [] \<Rightarrow> True | x # _ \<Rightarrow> \<not> in_class Digit x"
    using fp by (simp add: isdigit_def)
  have "rmatch (Plus Digit) (fp @ rest) g k = Some v"
    using fp nd k by (intro plus_match_greedy) (simp_all add: is_digits_def list_all_iff)
  then have "rmatch (Opt (Seq (Lit ''.'') (Plus Digit))) (fr @ rest) g k = Some v"
    using fp by simp
  then have "rmatch (Plus Digit) (ip @ fr @ rest) g (\<lambda>s' g'. rmatch (Opt (Seq (Lit ''.'') (Plus Digit))) s' g' k) = Some v"
    using ip nd2 by (intro plus_match_greedy) (simp_all add: is_digits_def list_all_iff)
  then show ?thesis by (simp add: number_def)
qed

lemma isspace_plain: "isspace x \<Longrightarrow> \<not> isdigit x \<and> x \<noteq> CHR ''.''"
  by (auto simp: isspace_def isdigit_def)

lemma tail_greedy:
  assumes ws: "is_blank ws" and u: "unit_name u" and k: "k rest g = Some v"
  shows "rmatch (Seq (Star Space) (Lit u)) (ws @ u @ rest) g k = Some v"
proof -
  have "case u @ rest of [] \<Rightarrow> True | x # _ \<Rightarrow> \<not> in_class Space x"
    using u by (cases u) (simp_all add: unit_name_def)
  moreover have "rmatch (Lit u) (u @ rest) g k = Some v"
    using k by simp
  ultimately have "star_match Space (ws @ u @ rest) (\<lambda>s'. rmatch (Lit u) s' g k) = Some v"
    using ws by (intro star_match_greedy) (simp_all add: is_blank_def list_all_iff)
  then show ?thesis by simp
qed

lemma follow_plain:
  assumes ws: "is_blank ws" and u: "unit_name u"
  shows "case ws @ u @ rest of [] \<Rightarrow> True | x # _ \<Rightarrow> \<not> isdigit x \<and> x \<noteq> CHR ''.''"
proof (cases ws)
  case Nil
  then show ?thesis using u by (cases u) (simp_all add: unit_name_def)
next
  case (Cons w ws')
  then show ?thesis using ws isspace_plain [of w] by (simp add: is_blank_def)
qed

lemma unit_pattern_greedy:
  assumes ip: "is_digits ip" and fr: "is_fraction fr" and ws: "is_blank ws" and u: "unit_name u"
  shows "rmatch (unit_pattern u) (ip @ fr @ ws @ u @ rest) g (\<lambda>s' g'. Some g') = Some (Some (ip @ fr))"
proof -
  let ?s = "ip @ fr @ ws @ u @ rest"
  let ?k = "\<lambda>s' g'. rmatch (Seq (Star Space) (Lit u)) s' g' (\<lambda>s' g'. Some g')"
  let ?kg = "\<lambda>s' g'. ?k s' (Some (take (length ?s - length s') ?s))"
  have "?kg (ws @ u @ rest) g = Some (Some (ip @ fr))"
    using tail_greedy [OF ws u, of "\<lambda>s' g'. Some g'" rest "Some (ip @ fr)"] by simp
  from number_greedy [OF ip fr follow_plain [OF ws u], of ?kg rest g, OF this]
  show ?thesis by (simp add: unit_pattern_def)
qed

lemma signal_pattern_greedy:
  assumes ip: "is_digits ip" and fr: "is_fraction fr" and ws: "is_blank ws"
  shows "rmatch signal_pattern (ip @ fr @ ws @ ''dBm'' @ rest) g (\<lambda>s' g'. Some g') = Some (Some (ip @ fr))"
    and "rmatch signal_pattern (''-'' @ ip @ fr @ ws @ ''dBm'' @ rest) g (\<lambda>s' g'. Some g') = Some (Some (''-'' @ ip @ fr))"
proof -
  have u: "unit_name ''dBm''" by (simp add: unit_name_def isdigit_def isspace_def)
  let ?k = "\<lambda>s' g'. rmatch (Seq (Star Space) (Lit ''dBm'')) s' g' (\<lambda>s' g'. Some g')"
  let ?s = "ip @ fr @ ws @ ''dBm'' @ rest"
  let ?kg = "\<lambda>s' g'. ?k s' (Some (take (length ?s - length s') ?s))"
  have "?kg (ws @ ''dBm'' @ rest) g = Some (Some (ip @ fr))"
    using tail_greedy [OF ws u, of "\<lambda>s' g'. Some g'" rest "Some (ip @ fr)"] by simp
  from number_greedy [OF ip fr follow_plain [OF ws u], of ?kg rest g, OF this]
  have n: "rmatch number ?s g ?kg = Some (Some (ip @ fr))" .
  have nominus: "\<not> prefix ''-'' ?s"
    using ip by (cases ip) (auto simp: is_digits_def isdigit_def)
  show "rmatch signal_pattern ?s g (\<lambda>s' g'. Some g') = Some (Some (ip @ fr))"
    using n nominus by (simp add: signal_pattern_def)
  let ?t = "''-'' @ ip @ fr @ ws @ ''dBm'' @ rest"
  let ?kh = "\<lambda>s' g'. ?k s' (Some (take (length ?t - length s') ?t))"
  have "?kh (ws @ ''dBm'' @ rest) g = Some (Some (''-'' @ ip @ fr))"
    using tail_greedy [OF ws u, of "\<lambda>s' g'. Some g'" rest "Some (''-'' @ ip @ fr)"] by simp
  from number_greedy [OF ip fr follow_plain [OF ws u], of ?kh rest g, OF this]
  have m: "rmatch number ?s g ?kh = Some (Some (''-'' @ ip @ fr))" .
  show "rmatch signal_pattern ?t g (\<lambda>s' g'. Some g') = Some (Some (''-'' @ ip @ fr))"
    using m by (simp add: signal_pattern_def)
qed

lemma re_search_first:
  "rmatch p s None (\<lambda>s' g'. Some g') = Some g \<Longrightarrow> re_search p s = Some g"
  by (cases s) simp_all


lemma takeWhile_digits:
  assumes "is_digits ip" "is_fraction fr"
  shows "takeWhile isdigit (ip @ fr) = ip" "dropWhile isdigit (ip @ fr) = fr"
proof -
  have all: "\<forall>x \<in> set ip. isdigit x" using assms(1) by (simp add: is_digits_def list_all_iff)
  have fr: "takeWhile isdigit fr = []" "dropWhile isdigit fr = fr"
    using assms(2) by (cases fr; auto simp: is_fraction_def isdigit_def)+
  show "takeWhile isdigit (ip @ fr) = ip" using all fr by (simp add: takeWhile_append2)
  show "dropWhile isdigit (ip @ fr) = fr" using all fr by (simp add: dropWhile_append2)
qed

lemma float_unsigned_value:
  assumes "is_digits ip" "is_fraction fr"
  shows "float_unsigned (ip @ fr) = Inr (round64 (decimal_value ip fr))"
proof (cases fr)
  case Nil
  have tw: "takeWhile isdigit ip = ip" "dropWhile isdigit ip = []"
    using takeWhile_digits [OF assms] Nil by simp_all
  have "float_unsigned ip = Inr (round64 (of_nat (nat_of_digits ip)))"
    unfolding float_unsigned_def Let_def tw using assms(1) by (simp add: is_digits_def)
  then show ?thesis
    using Nil by (simp add: decimal_value_def)
next
  case (Cons c fp)
  then have "c = CHR ''.''" "fp \<noteq> []" "list_all isdigit fp"
    using assms(2) by (simp_all add: is_fraction_def is_digits_def)
  then show ?thesis
    unfolding float_unsigned_def Let_def takeWhile_digits [OF assms]
    using assms(1) Cons by (simp add: decimal_value_def is_digits_def)
qed

lemma float_of_numeral_value:
  assumes "is_digits ip" "is_fraction fr"
  shows "float_of_numeral (ip @ fr) = Inr (round64 (decimal_value ip fr))"
    and "float_of_numeral (''-'' @ ip @ fr) = Inr (float_neg (round64 (decimal_value ip fr)))"
proof -
  obtain d ds where ip: "ip = d # ds" "isdigit d"
    using assms(1) by (cases ip) (auto simp: is_digits_def)
  then have "d \<noteq> CHR ''-''" by (auto simp: isdigit_def)
  then show "float_of_numeral (ip @ fr) = Inr (round64 (decimal_value ip fr))"
    using float_unsigned_value [OF assms] ip by (simp add: float_of_numeral_def)
  show "float_of_numeral (''-'' @ ip @ fr) = Inr (float_neg (round64 (decimal_value ip fr)))"
    using float_unsigned_value [OF assms] by (simp add: float_of_numeral_def)
qed

lemma extract_with_unit:
  assumes "is_digits ip" "is_fraction fr" "is_blank ws" "unit_name u"
  shows "re_search (unit_pattern u) (ip @ fr @ ws @ u @ rest) = Some (Some (ip @ fr))"
    and "extract_with (unit_pattern u) (Some (ip @ fr @ ws @ u @ rest)) = Inr (round64 (decimal_value ip fr))"
proof -
  show s: "re_search (unit_pattern u) (ip @ fr @ ws @ u @ rest) = Some (Some (ip @ fr))"
    by (rule re_search_first) (rule unit_pattern_greedy [OF assms])
  show "extract_with (unit_pattern u) (Some (ip @ fr @ ws @ u @ rest)) = Inr (round64 (decimal_value ip fr))"
    using s float_of_numeral_value(1) [OF assms(1,2)]
    by (simp add: extract_with_def float_group_def)
qed

lemma unit_names:
  "unit_name ''ms''" "unit_name ''Mbps''" "unit_name ''Kbps''" "unit_name ''%''" "unit_name ''dBm''"
  by (simp_all add: unit_name_def isdigit_def isspace_def)

section \<open>The shape of every match\<close>

text \<open>
  Whatever path the matcher takes, a match of a unit pattern is a run of digits, an
  optional fraction, blanks and the unit, and group 1 is the digits and the fraction.
\<close>

lemma star_match_sound:
  "star_match c s k = Some v \<Longrightarrow>
   \<exists>u s'. s = u @ s' \<and> list_all (in_class c) u \<and> k s' = Some v"
proof (induction s)
  case Nil
  then show ?case by simp
next
  case (Cons x xs)
  show ?case
  proof (cases "in_class c x \<and> star_match c xs k = Some v")
    case True
    with Cons.IH obtain u s' where "xs = u @ s'" "list_all (in_class c) u" "k s' = Some v"
      by blast
    then have "x # xs = (x # u) @ s'" "list_all (in_class c) (x # u)" "k s' = Some v"
      using True by simp_all
    then show ?thesis by blast
  next
    case False
    then have "k (x # xs) = Some v"
      using Cons.prems by (auto split: if_splits option.splits)
    then have "x # xs = [] @ (x # xs) \<and> list_all (in_class c) [] \<and> k (x # xs) = Some v"
      by simp
    then show ?thesis by blast
  qed
qed

lemma plus_match_sound:
  assumes "rmatch (Plus c) s g k = Some v"
  shows "\<exists>u s'. s = u @ s' \<and> u \<noteq> [] \<and> list_all (in_class c) u \<and> k s' g = Some v"
proof (cases s)
  case Nil
  then show ?thesis using assms by simp
next
  case (Cons x xs)
  then have x: "in_class c x" and "star_match c xs (\<lambda>s'. k s' g) = Some v"
    using assms by (auto split: if_splits)
  from star_match_sound [OF this(2)] obtain u s'
    where "xs = u @ s'" "list_all (in_class c) u" "k s' g = Some v" by blast
  then have "s = (x # u) @ s' \<and> x # u \<noteq> [] \<and> list_all (in_class c) (x # u) \<and> k s' g = Some v"
    using Cons x by simp
  then show ?thesis by blast
qed

lemma number_sound:
  assumes "rmatch number s g k = Some v"
  shows "\<exists>ip fr s'. s = ip @ fr @ s' \<and> is_digits ip \<and> is_fraction fr \<and> k s' g = Some v"
proof -
  let ?opt = "\<lambda>s' g'. rmatch (Opt (Seq (Lit ''.'') (Plus Digit))) s' g' k"
  from assms have "rmatch (Plus Digit) s g ?opt = Some v"
    by (simp add: number_def)
  from plus_match_sound [OF this] obtain ip s1
    where ip: "s = ip @ s1" "ip \<noteq> []" "list_all (in_class Digit) ip" and o: "?opt s1 g = Some v"
    by blast
  have dig: "is_digits ip" using ip by (simp add: is_digits_def list_all_iff)
  show ?thesis
  proof (cases "rmatch (Seq (Lit ''.'') (Plus Digit)) s1 g k = Some v")
    case True
    then have p: "prefix ''.'' s1" and "rmatch (Plus Digit) (drop 1 s1) g k = Some v"
      by (auto split: if_splits)
    from plus_match_sound [OF this(2)] obtain fp s2
      where fp: "drop 1 s1 = fp @ s2" "fp \<noteq> []" "list_all (in_class Digit) fp" "k s2 g = Some v"
      by blast
    from p fp(1) have s1: "s1 = (CHR ''.'' # fp) @ s2"
      by (cases s1) auto
    have fr: "is_fraction (CHR ''.'' # fp)"
      using fp(2,3) by (simp add: is_fraction_def is_digits_def list_all_iff)
    have "s = ip @ (CHR ''.'' # fp) @ s2"
      using ip(1) s1 by simp
    with dig fr fp(4) show ?thesis
      by (intro exI [of _ ip] exI [of _ "CHR ''.'' # fp"] exI [of _ s2]) simp
  next
    case False
    then have "k s1 g = Some v"
      using o by (auto split: option.splits)
    then have "s = ip @ [] @ s1 \<and> is_digits ip \<and> is_fraction [] \<and> k s1 g = Some v"
      using ip(1) dig by (simp add: is_fraction_def)
    then show ?thesis
      by (intro exI [of _ ip] exI [of _ "[]"] exI [of _ s1])
  qed
qed

lemma tail_sound:
  assumes "rmatch (Seq (Star Space) (Lit u)) s g k = Some v"
  shows "\<exists>ws s'. s = ws @ u @ s' \<and> is_blank ws \<and> k s' g = Some v"
proof -
  from assms have "star_match Space s (\<lambda>s'. rmatch (Lit u) s' g k) = Some v"
    by simp
  from star_match_sound [OF this] obtain ws s1
    where ws: "s = ws @ s1" "list_all (in_class Space) ws" "rmatch (Lit u) s1 g k = Some v"
    by blast
  then have "prefix u s1" "k (drop (length u) s1) g = Some v"
    by (auto split: if_splits)
  then obtain s2 where "s1 = u @ s2" "k s2 g = Some v"
    by (auto simp: prefix_def)
  then have "s = ws @ u @ s2 \<and> is_blank ws \<and> k s2 g = Some v"
    using ws(1,2) by (simp add: is_blank_def list_all_iff)
  then show ?thesis
    by (intro exI [of _ ws] exI [of _ s2])
qed

lemma unit_pattern_sound:
  assumes "rmatch (unit_pattern u) s g (\<lambda>s' g'. Some g') = Some v"
  shows "\<exists>ip fr ws s'. s = ip @ fr @ ws @ u @ s' \<and> is_digits ip \<and> is_fraction fr \<and>
           is_blank ws \<and> v = Some (ip @ fr)"
proof -
  let ?k = "\<lambda>s' g'. rmatch (Seq (Star Space) (Lit u)) s' g' (\<lambda>s' g'. Some g')"
  let ?kg = "\<lambda>s' g'. ?k s' (Some (take (length s - length s') s))"
  from assms have "rmatch number s g ?kg = Some v"
    by (simp add: unit_pattern_def)
  from number_sound [OF this] obtain ip fr s1
    where n: "s = ip @ fr @ s1" "is_digits ip" "is_fraction fr" "?kg s1 g = Some v"
    by blast
  from tail_sound [OF n(4)] obtain ws s2
    where t: "s1 = ws @ u @ s2" "is_blank ws" "Some (take (length s - length s1) s) = v"
    by blast
  have "take (length s - length s1) s = ip @ fr" using n(1) by simp
  then have "s = ip @ fr @ ws @ u @ s2 \<and> is_digits ip \<and> is_fraction fr \<and>
           is_blank ws \<and> v = Some (ip @ fr)"
    using n(1,2,3) t by auto
  then show ?thesis
    by (intro exI [of _ ip] exI [of _ fr] exI [of _ ws] exI [of _ s2])
qed

lemma signal_pattern_sound:
  assumes "rmatch signal_pattern s g (\<lambda>s' g'. Some g') = Some v"
  shows "\<exists>sg ip fr ws s'. s = sg @ ip @ fr @ ws @ ''dBm'' @ s' \<and> is_sign sg \<and> is_digits ip \<and>
           is_fraction fr \<and> is_blank ws \<and> v = Some (sg @ ip @ fr)"
proof -
  let ?k = "\<lambda>s' g'. rmatch (Seq (Star Space) (Lit ''dBm'')) s' g' (\<lambda>s' g'. Some g')"
  let ?kg = "\<lambda>s' g'. ?k s' (Some (take (length s - length s') s))"
  let ?kn = "\<lambda>s' g'. rmatch number s' g' ?kg"
  from assms have o: "rmatch (Opt (Lit ''-'')) s g ?kn = Some v"
    by (simp add: signal_pattern_def)
  have "\<exists>sg s0. s = sg @ s0 \<and> is_sign sg \<and> ?kn s0 g = Some v"
  proof (cases "rmatch (Lit ''-'') s g ?kn = Some v")
    case True
    then have "prefix ''-'' s" "?kn (drop 1 s) g = Some v"
      by (auto split: if_splits)
    then have "s = ''-'' @ drop 1 s \<and> is_sign ''-'' \<and> ?kn (drop 1 s) g = Some v"
      by (cases s) (auto simp: is_sign_def)
    then show ?thesis
      by (intro exI [of _ "''-''"] exI [of _ "drop 1 s"])
  next
    case False
    then have "?kn s g = Some v" using o by (auto split: option.splits)
    then have "s = [] @ s \<and> is_sign [] \<and> ?kn s g = Some v"
      by (simp add: is_sign_def)
    then show ?thesis
      by (intro exI [of _ "[]"] exI [of _ s])
  qed
  then obtain sg s0 where sg: "s = sg @ s0" "is_sign sg" "rmatch number s0 g ?kg = Some v"
    by (elim exE conjE)
  from number_sound [OF sg(3)] obtain ip fr s1
    where n: "s0 = ip @ fr @ s1" "is_digits ip" "is_fraction fr"
      "?k s1 (Some (take (length s - length s1) s)) = Some v"
    by (elim exE conjE)
  from tail_sound [OF n(4)] obtain ws s2
    where t: "s1 = ws @ ''dBm'' @ s2" "is_blank ws"
      "Some (Some (take (length s - length s1) s)) = Some v"
    by (elim exE conjE)
  have "take (length s - length s1) s = sg @ ip @ fr" using sg(1) n(1) by simp
  then have "s = sg @ ip @ fr @ ws @ ''dBm'' @ s2 \<and> is_sign sg \<and> is_digits ip \<and>
           is_fraction fr \<and> is_blank ws \<and> v = Some (sg @ ip @ fr)"
    using sg(1,2) n(1,2,3) t by auto
  then show ?thesis
    by (intro exI [of _ sg] exI [of _ ip] exI [of _ fr] exI [of _ ws] exI [of _ s2])
qed



lemma re_search_sound:
  "re_search p s = Some v \<Longrightarrow>
   \<exists>pre t. s = pre @ t \<and> rmatch p t None (\<lambda>s' g'. Some g') = Some v"
proof (induction s)
  case Nil
  then have "[] = [] @ [] \<and> rmatch p [] None (\<lambda>s' g'. Some g') = Some v" by simp
  then show ?case by (rule_tac x = "[]" in exI, rule_tac x = "[]" in exI)
next
  case (Cons x xs)
  show ?case
  proof (cases "rmatch p (x # xs) None (\<lambda>s' g'. Some g') = Some v")
    case True
    then have "x # xs = [] @ (x # xs) \<and> rmatch p (x # xs) None (\<lambda>s' g'. Some g') = Some v"
      by simp
    then show ?thesis by (rule_tac x = "[]" in exI, rule_tac x = "x # xs" in exI)
  next
    case False
    then have "re_search p xs = Some v"
      using Cons.prems by (simp split: option.splits)
    from Cons.IH [OF this] obtain pre t
      where pt: "xs = pre @ t" "rmatch p t None (\<lambda>s' g'. Some g') = Some v"
      by (elim exE conjE)
    then have "x # xs = (x # pre) @ t \<and> rmatch p t None (\<lambda>s' g'. Some g') = Some v"
      by simp
    then show ?thesis by (rule_tac x = "x # pre" in exI, rule_tac x = t in exI)
  qed
qed

lemma re_search_unit_shape:
  assumes "re_search (unit_pattern u) s = Some v"
  shows "\<exists>pre ip fr ws s'. s = pre @ ip @ fr @ ws @ u @ s' \<and> is_digits ip \<and> is_fraction fr \<and>
           is_blank ws \<and> v = Some (ip @ fr)"
proof -
  from re_search_sound [OF assms] obtain pre t
    where pt: "s = pre @ t" "rmatch (unit_pattern u) t None (\<lambda>s' g'. Some g') = Some v"
    by (elim exE conjE)
  from unit_pattern_sound [OF pt(2)] obtain ip fr ws s'
    where m: "t = ip @ fr @ ws @ u @ s'" "is_digits ip" "is_fraction fr" "is_blank ws"
      "v = Some (ip @ fr)"
    by (elim exE conjE)
  have "s = pre @ ip @ fr @ ws @ u @ s' \<and> is_digits ip \<and> is_fraction fr \<and>
           is_blank ws \<and> v = Some (ip @ fr)"
    using pt(1) m by simp
  then show ?thesis
    by (rule_tac x = pre in exI, rule_tac x = ip in exI, rule_tac x = fr in exI,
        rule_tac x = ws in exI, rule_tac x = s' in exI)
qed

lemma re_search_signal_shape:
  assumes "re_search signal_pattern s = Some v"
  shows "\<exists>pre sg ip fr ws s'. s = pre @ sg @ ip @ fr @ ws @ ''dBm'' @ s' \<and> is_sign sg \<and>
           is_digits ip \<and> is_fraction fr \<and> is_blank ws \<and> v = Some (sg @ ip @ fr)"
proof -
  from re_search_sound [OF assms] obtain pre t
    where pt: "s = pre @ t" "rmatch signal_pattern t None (\<lambda>s' g'. Some g') = Some v"
    by (elim exE conjE)
  from signal_pattern_sound [OF pt(2)] obtain sg ip fr ws s'
    where m: "t = sg @ ip @ fr @ ws @ ''dBm'' @ s'" "is_sign sg" "is_digits ip" "is_fraction fr"
      "is_blank ws" "v = Some (sg @ ip @ fr)"
    by (elim exE conjE)
  have "s = pre @ sg @ ip @ fr @ ws @ ''dBm'' @ s' \<and> is_sign sg \<and>
           is_digits ip \<and> is_fraction fr \<and> is_blank ws \<and> v = Some (sg @ ip @ fr)"
    using pt(1) m by simp
  then show ?thesis
    by (rule_tac x = pre in exI, rule_tac x = sg in exI, rule_tac x = ip in exI,
        rule_tac x = fr in exI, rule_tac x = ws in exI, rule_tac x = s' in exI)
qed

lemma is_digits_ex: "is_digits ip \<Longrightarrow> list_ex isdigit (pre @ ip @ post)"
  by (cases ip) (simp_all add: is_digits_def)

lemma re_search_unit_None:
  "\<not> list_ex isdigit s \<or> \<not> sublist u s \<Longrightarrow> re_search (unit_pattern u) s = None"
proof (rule ccontr)
  assume h: "\<not> list_ex isdigit s \<or> \<not> sublist u s"
  assume "re_search (unit_pattern u) s \<noteq> None"
  then obtain v where "re_search (unit_pattern u) s = Some v" by (cases "re_search (unit_pattern u) s") simp_all
  from re_search_unit_shape [OF this] obtain pre ip fr ws s'
    where m: "s = pre @ ip @ fr @ ws @ u @ s'" "is_digits ip"
    by (elim exE conjE)
  have "list_ex isdigit s" using m is_digits_ex [of ip pre "fr @ ws @ u @ s'"] by simp
  moreover have "sublist u s"
    unfolding sublist_def m(1) by (rule_tac x = "pre @ ip @ fr @ ws" in exI, rule_tac x = s' in exI) simp
  ultimately show False using h by simp
qed

lemma re_search_signal_None:
  "\<not> list_ex isdigit s \<or> \<not> sublist ''dBm'' s \<Longrightarrow> re_search signal_pattern s = None"
proof (rule ccontr)
  assume h: "\<not> list_ex isdigit s \<or> \<not> sublist ''dBm'' s"
  assume "re_search signal_pattern s \<noteq> None"
  then obtain v where "re_search signal_pattern s = Some v" by (cases "re_search signal_pattern s") simp_all
  from re_search_signal_shape [OF this] obtain pre sg ip fr ws s'
    where m: "s = pre @ sg @ ip @ fr @ ws @ ''dBm'' @ s'" "is_digits ip"
    by (elim exE conjE)
  have "list_ex isdigit s" using m is_digits_ex [of ip "pre @ sg" "fr @ ws @ ''dBm'' @ s'"] by simp
  moreover have "sublist ''dBm'' s"
    unfolding sublist_def m(1) by (rule_tac x = "pre @ sg @ ip @ fr @ ws" in exI, rule_tac x = s' in exI) simp
  ultimately show False using h by simp
qed

lemma decimal_value_nonneg: "0 \<le> decimal_value ip fr"
  by (simp add: decimal_value_def)

lemma float_group_unit_value:
  assumes "re_search (unit_pattern u) s = Some g"
  shows "\<exists>ip fr. g = Some (ip @ fr) \<and> is_digits ip \<and> is_fraction fr \<and>
           float_group g = Inr (round64 (decimal_value ip fr))"
proof -
  from re_search_unit_shape [OF assms] obtain pre ip fr ws s'
    where m: "is_digits ip" "is_fraction fr" "g = Some (ip @ fr)"
    by (elim exE conjE)
  have "float_group g = Inr (round64 (decimal_value ip fr))"
    using m float_of_numeral_value(1) [OF m(1,2)] by (simp add: float_group_def)
  then have "g = Some (ip @ fr) \<and> is_digits ip \<and> is_fraction fr \<and>
           float_group g = Inr (round64 (decimal_value ip fr))"
    using m by simp
  then show ?thesis by (rule_tac x = ip in exI, rule_tac x = fr in exI)
qed

lemma float_group_unit:
  assumes "re_search (unit_pattern u) s = Some g"
  shows "\<exists>x. float_group g = Inr x"
proof -
  from float_group_unit_value [OF assms] obtain ip fr
    where "float_group g = Inr (round64 (decimal_value ip fr))"
    by (elim exE conjE)
  then show ?thesis by (rule_tac x = "round64 (decimal_value ip fr)" in exI)
qed

lemma float_group_signal_value:
  assumes "re_search signal_pattern s = Some g"
  shows "\<exists>sg ip fr. g = Some (sg @ ip @ fr) \<and> is_sign sg \<and> is_digits ip \<and> is_fraction fr \<and>
           float_group g =
             Inr (if sg = [] then round64 (decimal_value ip fr)
                  else float_neg (round64 (decimal_value ip fr)))"
proof -
  from re_search_signal_shape [OF assms] obtain pre sg ip fr ws s'
    where m: "is_sign sg" "is_digits ip" "is_fraction fr" "g = Some (sg @ ip @ fr)"
    by (elim exE conjE)
  have "float_group g =
             Inr (if sg = [] then round64 (decimal_value ip fr)
                  else float_neg (round64 (decimal_value ip fr)))"
  proof (cases "sg = []")
    case True
    then show ?thesis
      using m float_of_numeral_value(1) [OF m(2,3)] by (simp add: float_group_def)
  next
    case False
    then have "sg = ''-''" using m(1) by (simp add: is_sign_def)
    then show ?thesis
      using m float_of_numeral_value(2) [OF m(2,3)] by (simp add: float_group_def)
  qed
  then have "g = Some (sg @ ip @ fr) \<and> is_sign sg \<and> is_digits ip \<and> is_fraction fr \<and>
           float_group g =
             Inr (if sg = [] then round64 (decimal_value ip fr)
                  else float_neg (round64 (decimal_value ip fr)))"
    using m by simp
  then show ?thesis
    by (rule_tac x = sg in exI, rule_tac x = ip in exI, rule_tac x = fr in exI)
qed

lemma float_group_signal:
  assumes "re_search signal_pattern s = Some g"
  shows "\<exists>x. float_group g = Inr x"
proof -
  from float_group_signal_value [OF assms] obtain sg ip fr
    where "g = Some (sg @ ip @ fr)" "is_sign sg" "is_digits ip" "is_fraction fr"
      "float_group g =
             Inr (if sg = [] then round64 (decimal_value ip fr)
                  else float_neg (round64 (decimal_value ip fr)))"
    by (elim exE conjE)
  then show ?thesis by (intro exI)
qed

lemma not_M: "\<not> isdigit (CHR ''M'')" "\<not> isspace (CHR ''M'')"
  by (simp_all add: isdigit_def isspace_def)

lemma no_M_no_Mbps:
  assumes "is_digits ip" "is_fraction fr" "is_blank ws" "CHR ''M'' \<notin> set rest"
  shows "\<not> sublist ''Mbps'' (ip @ fr @ ws @ ''Kbps'' @ rest)"
proof
  assume "sublist ''Mbps'' (ip @ fr @ ws @ ''Kbps'' @ rest)"
  then have "set ''Mbps'' \<subseteq> set (ip @ fr @ ws @ ''Kbps'' @ rest)"
    by (rule set_mono_sublist)
  moreover have "CHR ''M'' \<in> set ''Mbps''" by simp
  ultimately have "CHR ''M'' \<in> set (ip @ fr @ ws @ ''Kbps'' @ rest)"
    by (rule subsetD)
  then have "CHR ''M'' \<in> set ip \<or> CHR ''M'' \<in> set fr \<or> CHR ''M'' \<in> set ws"
    using assms(4) by simp
  moreover have "CHR ''M'' \<notin> set ip"
    using assms(1) not_M(1) by (auto simp: is_digits_def list_all_iff)
  moreover have "CHR ''M'' \<notin> set fr"
  proof (cases fr)
    case Nil
    then show ?thesis by simp
  next
    case (Cons c fp)
    then have "c = CHR ''.''" "list_all isdigit fp"
      using assms(2) by (simp_all add: is_fraction_def is_digits_def)
    then show ?thesis using Cons not_M(1) by (auto simp: list_all_iff)
  qed
  moreover have "CHR ''M'' \<notin> set ws"
    using assms(3) not_M(2) by (auto simp: is_blank_def list_all_iff)
  ultimately show False by simp
qed

section \<open>Properties of the unit parser\<close>

text \<open>
  Claim C2, as stated, fails for \<^verbatim>\<open>Kbps\<close>: the value returned for \<^verbatim>\<open>3.97 Kbps\<close> is the
  float \<^verbatim>\<open>3.97 / 1000.0\<close>; times 1000, in floats, it is \<^verbatim>\<open>3.9700000000000006\<close>, which
  is not the float \<^verbatim>\<open>3.97\<close> of the captured numeral, and as a number times 1000 it is
  not 3.97 either.
\<close>

theorem unit_parser_scale_counterexample:
  "extract_bandwidth (Some ''3.97 Kbps'') = Inr (Finite (4577098373289183 / 1152921504606846976)) \<and>
   float_mul_const (Finite (4577098373289183 / 1152921504606846976)) 1000 =
     Finite (2234911315082609 / 562949953421312) \<and>
   round64 (397 / 100) = Finite (8939645260330435 / 2251799813685248) \<and>
   Finite (2234911315082609 / 562949953421312) \<noteq> Finite (8939645260330435 / 2251799813685248) \<and>
   (4577098373289183 / 1152921504606846976 :: rat) * 1000 \<noteq> 397 / 100"
proof -
  have "extract_bandwidth (Some ''3.97 Kbps'') = Inr (float_div_const (round64 (397 / 100)) 1000)"
    by (simp add: extract_bandwidth_def mbps_pattern_def kbps_pattern_def
      unit_pattern_def number_def isdigit_def isspace_def float_group_def
      float_of_numeral_def float_unsigned_def nat_of_digits_def digit_val_def)
  moreover have "float_div_const (round64 (397 / 100)) 1000 =
      Finite (4577098373289183 / 1152921504606846976)"
    by (simp only: round64_397 float_div_const_def float64.case round64_397_div)
  ultimately have a: "extract_bandwidth (Some ''3.97 Kbps'') =
      Inr (Finite (4577098373289183 / 1152921504606846976))"
    by (simp only:)
  have b: "float_mul_const (Finite (4577098373289183 / 1152921504606846976)) 1000 =
     Finite (2234911315082609 / 562949953421312)"
    by (simp only: float_mul_const_def float64.case round64_397_mul)
  have c: "Finite (2234911315082609 / 562949953421312) \<noteq>
      Finite (8939645260330435 / 2251799813685248)"
    by simp
  have d: "(4577098373289183 / 1152921504606846976 :: rat) * 1000 \<noteq> 397 / 100"
    by simp
  from a b round64_397 c d show ?thesis by (intro conjI)
qed

text \<open>
  Claim C2, amended: on a numeral (digits, optionally a point and digits) followed by any
  amount of white space and a unit, the parser returns the float nearest to the number the
  numeral denotes for \<^verbatim>\<open>Mbps\<close> and \<^verbatim>\<open>dBm\<close>, its negation for a \<^verbatim>\<open>dBm\<close> numeral with a minus
  sign, and for \<^verbatim>\<open>Kbps\<close> that float divided by \<^verbatim>\<open>1000.0\<close>, the quotient rounded to a float
  again.  Text after the unit does not matter (after \<^verbatim>\<open>Kbps\<close>, as long as it has no \<^verbatim>\<open>M\<close>,
  since the \<^verbatim>\<open>Mbps\<close> pattern is tried first).
\<close>

theorem unit_parser_scale:
  assumes "is_digits ip" and "is_fraction fr" and "is_blank ws" and "CHR ''M'' \<notin> set rest'"
  shows "extract_bandwidth (Some (ip @ fr @ ws @ ''Mbps'' @ rest)) =
      Inr (round64 (decimal_value ip fr)) \<and>
    extract_bandwidth (Some (ip @ fr @ ws @ ''Kbps'' @ rest')) =
      Inr (float_div_const (round64 (decimal_value ip fr)) 1000) \<and>
    extract_signal_strength (Some (ip @ fr @ ws @ ''dBm'' @ rest)) =
      Inr (round64 (decimal_value ip fr)) \<and>
    extract_signal_strength (Some (''-'' @ ip @ fr @ ws @ ''dBm'' @ rest)) =
      Inr (float_neg (round64 (decimal_value ip fr)))"
proof -
  have d: "float_group (Some (ip @ fr)) = Inr (round64 (decimal_value ip fr))"
    "float_group (Some (''-'' @ ip @ fr)) = Inr (float_neg (round64 (decimal_value ip fr)))"
    using float_of_numeral_value [OF assms(1,2)] by (simp_all add: float_group_def)
  have m: "extract_bandwidth (Some (ip @ fr @ ws @ ''Mbps'' @ rest)) =
      Inr (round64 (decimal_value ip fr))"
    using extract_with_unit(1) [OF assms(1,2,3) unit_names(2), of rest] d(1)
    by (simp add: extract_bandwidth_def mbps_pattern_def)
  have "re_search (unit_pattern ''Mbps'') (ip @ fr @ ws @ ''Kbps'' @ rest') = None"
    using no_M_no_Mbps [OF assms] by (intro re_search_unit_None) simp
  then have k: "extract_bandwidth (Some (ip @ fr @ ws @ ''Kbps'' @ rest')) =
      Inr (float_div_const (round64 (decimal_value ip fr)) 1000)"
    using extract_with_unit(1) [OF assms(1,2,3) unit_names(3), of rest'] d(1)
    by (simp add: extract_bandwidth_def mbps_pattern_def kbps_pattern_def)
  have s1: "extract_signal_strength (Some (ip @ fr @ ws @ ''dBm'' @ rest)) =
      Inr (round64 (decimal_value ip fr))"
    using re_search_first [OF signal_pattern_greedy(1) [OF assms(1,2,3), of rest None]] d(1)
    by (simp add: extract_signal_strength_def extract_with_def)
  have s2: "extract_signal_strength (Some (''-'' @ ip @ fr @ ws @ ''dBm'' @ rest)) =
      Inr (float_neg (round64 (decimal_value ip fr)))"
    using re_search_first [OF signal_pattern_greedy(2) [OF assms(1,2,3), of rest None]] d(2)
    by (simp add: extract_signal_strength_def extract_with_def)
  show ?thesis using m k s1 s2 by (intro conjI)
qed

theorem unit_parser_scale_witness:
  "is_digits ''100'' \<and> is_fraction [] \<and> is_blank '' '' \<and> CHR ''M'' \<notin> set [] \<and>
   extract_bandwidth (Some ''100 Mbps'') = Inr (Finite 100) \<and>
   extract_bandwidth (Some ''100 Kbps'') = Inr (Finite (3602879701896397 / 36028797018963968)) \<and>
   is_digits ''75'' \<and> is_fraction ''.5'' \<and>
   extract_signal_strength (Some ''-75.5 dBm'') = Inr (Finite (- (151 / 2))) \<and>
   extract_signal_strength (Some ''-75 dBm'') = Inr (Finite (- 75))"
proof -
  have h: "is_digits ''100''" "is_fraction []" "is_blank '' ''" "CHR ''M'' \<notin> set []"
    by (simp_all add: is_digits_def is_fraction_def is_blank_def isdigit_def isspace_def)
  have v: "decimal_value ''100'' [] = 100"
    by (simp add: decimal_value_def nat_of_digits_def digit_val_def)
  have r: "float_div_const (Finite 100) 1000 = Finite (3602879701896397 / 36028797018963968)"
    using round64_1_10 by (simp add: float_div_const_def)
  from unit_parser_scale [OF h, of "[]"]
  have a: "extract_bandwidth (Some ''100 Mbps'') = Inr (Finite 100)"
    and k: "extract_bandwidth (Some ''100 Kbps'') =
      Inr (Finite (3602879701896397 / 36028797018963968))"
    unfolding v round64_100 r by simp_all
  have h': "is_digits ''75''" "is_fraction ''.5''"
    by (simp_all add: is_digits_def is_fraction_def isdigit_def)
  have v': "decimal_value ''75'' ''.5'' = 151 / 2" "decimal_value ''75'' [] = 75"
    by (simp_all add: decimal_value_def nat_of_digits_def digit_val_def)
  have n: "float_neg (Finite (151 / 2)) = Finite (- (151 / 2))"
    "float_neg (Finite 75) = Finite (- 75)"
    by (simp_all add: float_neg_def)
  from unit_parser_scale [OF h'(1) h'(2) h(3) h(4), of "[]"]
  have c: "extract_signal_strength (Some ''-75.5 dBm'') = Inr (Finite (- (151 / 2)))"
    unfolding v' round64_151_2 n by simp
  from unit_parser_scale [OF h'(1) h(2) h(3) h(4), of "[]"]
  have d: "extract_signal_strength (Some ''-75 dBm'') = Inr (Finite (- 75))"
    unfolding v' round64_75 n by simp
  from a k c d h h' show ?thesis by (intro conjI)
qed

lemma extract_with_unit_total: "\<exists>r. extract_with (unit_pattern u) v = Inr r"
proof (cases v)
  case None
  then show ?thesis by (simp add: extract_with_def)
next
  case (Some s)
  show ?thesis
  proof (cases "re_search (unit_pattern u) s")
    case None
    then show ?thesis using Some by (simp add: extract_with_def)
  next
    case (Some g)
    from float_group_unit [OF this] obtain x where "float_group g = Inr x"
      by (elim exE conjE)
    then show ?thesis using Some \<open>v = Some s\<close> by (simp add: extract_with_def)
  qed
qed

lemma extract_signal_total: "\<exists>r. extract_with signal_pattern v = Inr r"
proof (cases v)
  case None
  then show ?thesis by (simp add: extract_with_def)
next
  case (Some s)
  show ?thesis
  proof (cases "re_search signal_pattern s")
    case None
    then show ?thesis using Some by (simp add: extract_with_def)
  next
    case (Some g)
    from float_group_signal [OF this] obtain x where "float_group g = Inr x"
      by (elim exE)
    then show ?thesis using Some \<open>v = Some s\<close> by (simp add: extract_with_def)
  qed
qed

lemma extract_bandwidth_total: "\<exists>r. extract_bandwidth v = Inr r"
proof (cases v)
  case None
  then show ?thesis by (simp add: extract_bandwidth_def)
next
  case (Some s)
  note v = this
  show ?thesis
  proof (cases "re_search (unit_pattern ''Mbps'') s")
    case (Some g)
    from float_group_unit [OF this] obtain x where "float_group g = Inr x"
      by (elim exE conjE)
    then show ?thesis using Some v by (simp add: extract_bandwidth_def mbps_pattern_def)
  next
    case None
    note m = this
    show ?thesis
    proof (cases "re_search (unit_pattern ''Kbps'') s")
      case None
      then show ?thesis using m v by (simp add: extract_bandwidth_def mbps_pattern_def kbps_pattern_def)
    next
      case (Some g)
      from float_group_unit [OF this] obtain x where "float_group g = Inr x"
        by (elim exE conjE)
      then show ?thesis using Some m v
        by (simp add: extract_bandwidth_def mbps_pattern_def kbps_pattern_def)
    qed
  qed
qed

lemma is_zero_neg: "is_zero (float_neg x) = is_zero x"
  by (cases x) (simp_all add: is_zero_def float_neg_def)

lemma not_zero_Nan: "\<not> is_zero Nan"
  by (simp add: is_zero_def)

lemma extract_with_zero:
  assumes "extract_with p (Some s) = Inr r" "is_zero r"
  shows "\<exists>g. re_search p s = Some g \<and> float_group g = Inr r"
proof (cases "re_search p s")
  case None
  then show ?thesis using assms by (simp add: extract_with_def is_zero_def)
next
  case (Some g)
  then have "float_group g = Inr r"
    using assms(1) by (simp add: extract_with_def split: sum.splits)
  then show ?thesis using Some by simp
qed

lemma unit_zero_small:
  assumes "extract_with (unit_pattern u) (Some s) = Inr r" "is_zero r"
  shows "\<exists>ip fr. re_search (unit_pattern u) s = Some (Some (ip @ fr)) \<and> is_digits ip \<and>
           is_fraction fr \<and> decimal_value ip fr \<le> pow2 (- 1075)"
proof -
  from extract_with_zero [OF assms] obtain g
    where g: "re_search (unit_pattern u) s = Some g" "float_group g = Inr r"
    by (elim exE conjE)
  from float_group_unit_value [OF g(1)] obtain ip fr
    where m: "g = Some (ip @ fr)" "is_digits ip" "is_fraction fr"
      "float_group g = Inr (round64 (decimal_value ip fr))"
    by (elim exE conjE)
  have "r = round64 (decimal_value ip fr)" using g(2) m(4) by simp
  then have "is_zero (round64 (decimal_value ip fr))" using assms(2) by simp
  then have "decimal_value ip fr \<le> pow2 (- 1075)"
    using round64_zero_iff [OF decimal_value_nonneg [of ip fr]] by simp
  then have "re_search (unit_pattern u) s = Some (Some (ip @ fr)) \<and> is_digits ip \<and>
           is_fraction fr \<and> decimal_value ip fr \<le> pow2 (- 1075)"
    using g(1) m by simp
  then show ?thesis by (rule_tac x = ip in exI, rule_tac x = fr in exI)
qed

lemma signal_zero_small:
  assumes "extract_with signal_pattern (Some s) = Inr r" "is_zero r"
  shows "\<exists>sg ip fr. re_search signal_pattern s = Some (Some (sg @ ip @ fr)) \<and> is_sign sg \<and>
           is_digits ip \<and> is_fraction fr \<and> decimal_value ip fr \<le> pow2 (- 1075)"
proof -
  from extract_with_zero [OF assms] obtain g
    where g: "re_search signal_pattern s = Some g" "float_group g = Inr r"
    by (elim exE conjE)
  from float_group_signal_value [OF g(1)] obtain sg ip fr
    where m: "g = Some (sg @ ip @ fr)" "is_sign sg" "is_digits ip" "is_fraction fr"
      "float_group g =
         Inr (if sg = [] then round64 (decimal_value ip fr)
              else float_neg (round64 (decimal_value ip fr)))"
    by (elim exE conjE)
  have "r = (if sg = [] then round64 (decimal_value ip fr)
              else float_neg (round64 (decimal_value ip fr)))"
    using g(2) m(5) by simp
  then have "is_zero (round64 (decimal_value ip fr))"
    using assms(2) by (cases "sg = []") (simp_all add: is_zero_neg)
  then have "decimal_value ip fr \<le> pow2 (- 1075)"
    using round64_zero_iff [OF decimal_value_nonneg [of ip fr]] by simp
  then have "re_search signal_pattern s = Some (Some (sg @ ip @ fr)) \<and> is_sign sg \<and>
           is_digits ip \<and> is_fraction fr \<and> decimal_value ip fr \<le> pow2 (- 1075)"
    using g(1) m by simp
  then show ?thesis
    by (rule_tac x = sg in exI, rule_tac x = ip in exI, rule_tac x = fr in exI)
qed

lemma kbps_zero_small:
  assumes "re_search (unit_pattern ''Kbps'') s = Some g" "float_group g = Inr x"
    "is_zero (float_div_const x 1000)"
  shows "\<exists>ip fr. re_search (unit_pattern ''Kbps'') s = Some (Some (ip @ fr)) \<and> is_digits ip \<and>
           is_fraction fr \<and> decimal_value ip fr < pow2 (- 1065)"
proof -
  from float_group_unit_value [OF assms(1)] obtain ip fr
    where m: "g = Some (ip @ fr)" "is_digits ip" "is_fraction fr"
      "float_group g = Inr (round64 (decimal_value ip fr))"
    by (elim exE conjE)
  have "x = round64 (decimal_value ip fr)" using assms(2) m(4) by simp
  then have "is_zero (float_div_const (round64 (decimal_value ip fr)) 1000)"
    using assms(3) by simp
  then have "decimal_value ip fr < pow2 (- 1065)"
    by (rule div_const_zero [OF decimal_value_nonneg [of ip fr]])
  then have "re_search (unit_pattern ''Kbps'') s = Some (Some (ip @ fr)) \<and> is_digits ip \<and>
           is_fraction fr \<and> decimal_value ip fr < pow2 (- 1065)"
    using assms(1) m by simp
  then show ?thesis by (rule_tac x = ip in exI, rule_tac x = fr in exI)
qed

lemma bandwidth_zero_small:
  assumes "extract_bandwidth (Some s) = Inr r" "is_zero r"
  shows "(\<exists>ip fr. re_search mbps_pattern s = Some (Some (ip @ fr)) \<and> is_digits ip \<and>
            is_fraction fr \<and> decimal_value ip fr \<le> pow2 (- 1075)) \<or>
         (re_search mbps_pattern s = None \<and>
          (\<exists>ip fr. re_search kbps_pattern s = Some (Some (ip @ fr)) \<and> is_digits ip \<and>
            is_fraction fr \<and> decimal_value ip fr < pow2 (- 1065)))"
proof (cases "re_search (unit_pattern ''Mbps'') s")
  case (Some g)
  from float_group_unit [OF Some] obtain x where x: "float_group g = Inr x"
    by (elim exE)
  have "extract_with (unit_pattern ''Mbps'') (Some s) = Inr r"
    using assms(1) Some x by (simp add: extract_bandwidth_def extract_with_def mbps_pattern_def)
  from unit_zero_small [OF this assms(2)] show ?thesis
    by (simp add: mbps_pattern_def)
next
  case None
  note m = this
  show ?thesis
  proof (cases "re_search (unit_pattern ''Kbps'') s")
    case None
    then show ?thesis
      using assms m
      by (simp add: extract_bandwidth_def mbps_pattern_def kbps_pattern_def is_zero_def)
  next
    case (Some g)
    from float_group_unit [OF Some] obtain x where x: "float_group g = Inr x"
      by (elim exE)
    have "r = float_div_const x 1000"
      using assms(1) m Some x
      by (simp add: extract_bandwidth_def mbps_pattern_def kbps_pattern_def)
    then have "is_zero (float_div_const x 1000)" using assms(2) by simp
    from kbps_zero_small [OF Some x this] m show ?thesis
      by (simp add: mbps_pattern_def kbps_pattern_def)
  qed
qed

lemma nat_of_digits_zeros:
  "foldl (\<lambda>acc c. 10 * acc + digit_val c) 0 (replicate n (CHR ''0'') @ ds) =
   foldl (\<lambda>acc c. 10 * acc + digit_val c) 0 ds"
  by (induction n) (simp_all add: digit_val_def)

lemma round64_tiny: "round64 (1 / 10 ^ 401) = Finite 0"
proof -
  have "(1 :: rat) / 10 ^ 401 \<le> pow2 (- 1075)"
    by (simp add: pow2_def)
  then have "round_pos (1 / 10 ^ 401) = 0"
    by (intro round_pos_underflow) simp_all
  then show ?thesis by (simp add: round64_def)
qed

text \<open>
  Claim C3, as stated, fails in its last clause: \<^verbatim>\<open>1,000 ms\<close> is parsed as 0, the captured
  numeral being \<^verbatim>\<open>000\<close>, and \<^verbatim>\<open>0.0 Mbps\<close> is parsed as 0 from the numeral \<^verbatim>\<open>0.0\<close>;
  neither numeral is the text \<^verbatim>\<open>0\<close>.  And a numeral with a digit other than 0 is parsed as
  0 when the number is too small for a float: \<^verbatim>\<open>0.\<close>, 400 zeros and \<^verbatim>\<open>1 ms\<close>.
\<close>

theorem unit_parser_zero_counterexample:
  "extract_latency (Some ''1,000 ms'') = Inr (Finite 0) \<and>
   re_search latency_pattern ''1,000 ms'' = Some (Some ''000'') \<and> ''000'' \<noteq> ''0'' \<and>
   extract_bandwidth (Some ''0.0 Mbps'') = Inr (Finite 0) \<and>
   re_search mbps_pattern ''0.0 Mbps'' = Some (Some ''0.0'') \<and> ''0.0'' \<noteq> ''0'' \<and>
   extract_latency (Some (''0.'' @ replicate 400 (CHR ''0'') @ ''1 ms'')) = Inr (Finite 0) \<and>
   re_search latency_pattern (''0.'' @ replicate 400 (CHR ''0'') @ ''1 ms'') =
     Some (Some (''0.'' @ replicate 400 (CHR ''0'') @ ''1''))"
proof -
  have a: "extract_latency (Some ''1,000 ms'') = Inr (Finite 0) \<and>
   re_search latency_pattern ''1,000 ms'' = Some (Some ''000'') \<and> ''000'' \<noteq> ''0'' \<and>
   extract_bandwidth (Some ''0.0 Mbps'') = Inr (Finite 0) \<and>
   re_search mbps_pattern ''0.0 Mbps'' = Some (Some ''0.0'') \<and> ''0.0'' \<noteq> ''0''"
    by (simp add: extract_latency_def extract_bandwidth_def extract_with_def latency_pattern_def
      mbps_pattern_def unit_pattern_def number_def isdigit_def isspace_def float_group_def
      float_of_numeral_def float_unsigned_def nat_of_digits_def digit_val_def round64_0)
  let ?fr = "''.'' @ replicate 400 (CHR ''0'') @ ''1''"
  have h: "is_digits ''0''" "is_fraction ?fr" "is_blank '' ''"
    by (simp_all add: is_digits_def is_fraction_def is_blank_def isdigit_def isspace_def
        list_all_iff)
  have "nat_of_digits (replicate 400 (CHR ''0'') @ ''1'') = 1"
    unfolding nat_of_digits_def nat_of_digits_zeros by (simp add: digit_val_def)
  then have v: "decimal_value ''0'' ?fr = 1 / 10 ^ 401"
    by (simp add: decimal_value_def nat_of_digits_def digit_val_def)
  from extract_with_unit [OF h unit_names(1), of "[]"]
  have b: "extract_latency (Some (''0.'' @ replicate 400 (CHR ''0'') @ ''1 ms'')) = Inr (Finite 0)"
    and c: "re_search latency_pattern (''0.'' @ replicate 400 (CHR ''0'') @ ''1 ms'') =
     Some (Some (''0.'' @ replicate 400 (CHR ''0'') @ ''1''))"
    unfolding v round64_tiny by (simp_all add: extract_latency_def latency_pattern_def)
  from a b c show ?thesis by simp
qed

text \<open>
  Claim C3, amended: a missing value, the empty string, a string without a digit (so a
  unit with no numeral) and a string in which the unit of the extractor does not occur
  (so a numeral with another unit) all give the missing value; no extractor raises; and
  the result is zero only when a pattern matched and the number that the captured numeral
  denotes is at most \<open>2\<^sup>-\<^sup>1\<^sup>0\<^sup>7\<^sup>5\<close> (below \<open>2\<^sup>-\<^sup>1\<^sup>0\<^sup>6\<^sup>5\<close> for \<^verbatim>\<open>Kbps\<close>): it is 0, or so small that
  it is rounded to 0.
\<close>

theorem unit_parser_missing:
  "extract_latency None = Inr Nan \<and> extract_bandwidth None = Inr Nan \<and>
   extract_signal_strength None = Inr Nan \<and> extract_percentage None = Inr Nan \<and>
   extract_latency (Some []) = Inr Nan \<and> extract_bandwidth (Some []) = Inr Nan \<and>
   extract_signal_strength (Some []) = Inr Nan \<and> extract_percentage (Some []) = Inr Nan \<and>
   (\<not> list_ex isdigit s \<longrightarrow>
      extract_latency (Some s) = Inr Nan \<and> extract_bandwidth (Some s) = Inr Nan \<and>
      extract_signal_strength (Some s) = Inr Nan \<and> extract_percentage (Some s) = Inr Nan) \<and>
   (\<not> sublist ''ms'' s \<longrightarrow> extract_latency (Some s) = Inr Nan) \<and>
   (\<not> sublist ''Mbps'' s \<and> \<not> sublist ''Kbps'' s \<longrightarrow> extract_bandwidth (Some s) = Inr Nan) \<and>
   (\<not> sublist ''dBm'' s \<longrightarrow> extract_signal_strength (Some s) = Inr Nan) \<and>
   (\<not> sublist ''%'' s \<longrightarrow> extract_percentage (Some s) = Inr Nan) \<and>
   (\<exists>r. extract_latency v = Inr r) \<and> (\<exists>r. extract_bandwidth v = Inr r) \<and>
   (\<exists>r. extract_signal_strength v = Inr r) \<and> (\<exists>r. extract_percentage v = Inr r) \<and>
   (extract_latency (Some s) = Inr z \<and> is_zero z \<longrightarrow>
      (\<exists>ip fr. re_search latency_pattern s = Some (Some (ip @ fr)) \<and> is_digits ip \<and>
         is_fraction fr \<and> decimal_value ip fr \<le> pow2 (- 1075))) \<and>
   (extract_bandwidth (Some s) = Inr z \<and> is_zero z \<longrightarrow>
      (\<exists>ip fr. re_search mbps_pattern s = Some (Some (ip @ fr)) \<and> is_digits ip \<and>
         is_fraction fr \<and> decimal_value ip fr \<le> pow2 (- 1075)) \<or>
      (re_search mbps_pattern s = None \<and>
       (\<exists>ip fr. re_search kbps_pattern s = Some (Some (ip @ fr)) \<and> is_digits ip \<and>
          is_fraction fr \<and> decimal_value ip fr < pow2 (- 1065)))) \<and>
   (extract_signal_strength (Some s) = Inr z \<and> is_zero z \<longrightarrow>
      (\<exists>sg ip fr. re_search signal_pattern s = Some (Some (sg @ ip @ fr)) \<and> is_sign sg \<and>
         is_digits ip \<and> is_fraction fr \<and> decimal_value ip fr \<le> pow2 (- 1075))) \<and>
   (extract_percentage (Some s) = Inr z \<and> is_zero z \<longrightarrow>
      (\<exists>ip fr. re_search percent_pattern s = Some (Some (ip @ fr)) \<and> is_digits ip \<and>
         is_fraction fr \<and> decimal_value ip fr \<le> pow2 (- 1075)))"
proof -
  have null: "extract_latency None = Inr Nan" "extract_bandwidth None = Inr Nan"
    "extract_signal_strength None = Inr Nan" "extract_percentage None = Inr Nan"
    by (simp_all add: extract_latency_def extract_bandwidth_def extract_signal_strength_def
        extract_percentage_def extract_with_def)
  have unit_none: "extract_with (unit_pattern u) (Some t) = Inr Nan"
    if "\<not> list_ex isdigit t \<or> \<not> sublist u t" for u t
    using re_search_unit_None [OF that] by (simp add: extract_with_def)
  have sig_none: "extract_with signal_pattern (Some t) = Inr Nan"
    if "\<not> list_ex isdigit t \<or> \<not> sublist ''dBm'' t" for t
    using re_search_signal_None [OF that] by (simp add: extract_with_def)
  have bw_none: "extract_bandwidth (Some t) = Inr Nan"
    if "\<not> list_ex isdigit t \<or> (\<not> sublist ''Mbps'' t \<and> \<not> sublist ''Kbps'' t)" for t
  proof -
    have "re_search (unit_pattern ''Mbps'') t = None" "re_search (unit_pattern ''Kbps'') t = None"
      using that by (auto intro: re_search_unit_None)
    then show ?thesis by (simp add: extract_bandwidth_def mbps_pattern_def kbps_pattern_def)
  qed
  have empty: "extract_latency (Some []) = Inr Nan" "extract_bandwidth (Some []) = Inr Nan"
    "extract_signal_strength (Some []) = Inr Nan" "extract_percentage (Some []) = Inr Nan"
    using unit_none [of "[]"] sig_none [of "[]"] bw_none [of "[]"]
    by (simp_all add: extract_latency_def extract_signal_strength_def extract_percentage_def
        latency_pattern_def percent_pattern_def)
  have nodigit: "\<not> list_ex isdigit s \<longrightarrow>
      extract_latency (Some s) = Inr Nan \<and> extract_bandwidth (Some s) = Inr Nan \<and>
      extract_signal_strength (Some s) = Inr Nan \<and> extract_percentage (Some s) = Inr Nan"
    using unit_none [of s] sig_none [of s] bw_none [of s]
    by (simp add: extract_latency_def extract_signal_strength_def extract_percentage_def
        latency_pattern_def percent_pattern_def)
  have nounit: "\<not> sublist ''ms'' s \<longrightarrow> extract_latency (Some s) = Inr Nan"
    "\<not> sublist ''Mbps'' s \<and> \<not> sublist ''Kbps'' s \<longrightarrow> extract_bandwidth (Some s) = Inr Nan"
    "\<not> sublist ''dBm'' s \<longrightarrow> extract_signal_strength (Some s) = Inr Nan"
    "\<not> sublist ''%'' s \<longrightarrow> extract_percentage (Some s) = Inr Nan"
    using unit_none [of s] sig_none [of s] bw_none [of s]
    by (simp_all add: extract_latency_def extract_signal_strength_def extract_percentage_def
        latency_pattern_def percent_pattern_def)
  have total: "\<exists>r. extract_latency v = Inr r" "\<exists>r. extract_bandwidth v = Inr r"
    "\<exists>r. extract_signal_strength v = Inr r" "\<exists>r. extract_percentage v = Inr r"
    using extract_with_unit_total [of _ v] extract_signal_total [of v] extract_bandwidth_total [of v]
    by (simp_all add: extract_latency_def extract_signal_strength_def extract_percentage_def
        latency_pattern_def percent_pattern_def)
  have z1: "extract_latency (Some s) = Inr z \<and> is_zero z \<longrightarrow>
      (\<exists>ip fr. re_search latency_pattern s = Some (Some (ip @ fr)) \<and> is_digits ip \<and>
         is_fraction fr \<and> decimal_value ip fr \<le> pow2 (- 1075))"
    using unit_zero_small [of "''ms''" s z]
    by (simp add: extract_latency_def latency_pattern_def)
  have z4: "extract_percentage (Some s) = Inr z \<and> is_zero z \<longrightarrow>
      (\<exists>ip fr. re_search percent_pattern s = Some (Some (ip @ fr)) \<and> is_digits ip \<and>
         is_fraction fr \<and> decimal_value ip fr \<le> pow2 (- 1075))"
    using unit_zero_small [of "''%''" s z]
    by (simp add: extract_percentage_def percent_pattern_def)
  have z3: "extract_signal_strength (Some s) = Inr z \<and> is_zero z \<longrightarrow>
      (\<exists>sg ip fr. re_search signal_pattern s = Some (Some (sg @ ip @ fr)) \<and> is_sign sg \<and>
         is_digits ip \<and> is_fraction fr \<and> decimal_value ip fr \<le> pow2 (- 1075))"
    using signal_zero_small [of s z]
    by (simp add: extract_signal_strength_def)
  have z2: "extract_bandwidth (Some s) = Inr z \<and> is_zero z \<longrightarrow>
      (\<exists>ip fr. re_search mbps_pattern s = Some (Some (ip @ fr)) \<and> is_digits ip \<and>
         is_fraction fr \<and> decimal_value ip fr \<le> pow2 (- 1075)) \<or>
      (re_search mbps_pattern s = None \<and>
       (\<exists>ip fr. re_search kbps_pattern s = Some (Some (ip @ fr)) \<and> is_digits ip \<and>
          is_fraction fr \<and> decimal_value ip fr < pow2 (- 1065)))"
    using bandwidth_zero_small [of s z] by (intro impI) (elim conjE)
  show ?thesis
    using null empty nodigit nounit total z1 z2 z3 z4 by (intro conjI)
qed

theorem unit_parser_missing_witness:
  "\<not> list_ex isdigit ''Mbps'' \<and> extract_bandwidth (Some ''Mbps'') = Inr Nan \<and>
   \<not> sublist ''Mbps'' ''10 Gbps'' \<and> \<not> sublist ''Kbps'' ''10 Gbps'' \<and>
   extract_bandwidth (Some ''10 Gbps'') = Inr Nan \<and>
   \<not> sublist ''ms'' ''30 sec'' \<and> extract_latency (Some ''30 sec'') = Inr Nan \<and>
   extract_latency (Some ''0 ms'') = Inr (Finite 0) \<and> is_zero (Finite 0) \<and>
   (\<exists>ip fr. re_search latency_pattern ''0 ms'' = Some (Some (ip @ fr)) \<and> is_digits ip \<and>
      is_fraction fr \<and> decimal_value ip fr \<le> pow2 (- 1075))"
proof -
  have a: "\<not> list_ex isdigit ''Mbps''"
    by (simp add: isdigit_def)
  have b: "\<not> sublist ''Mbps'' ''10 Gbps''" "\<not> sublist ''Kbps'' ''10 Gbps''"
    "\<not> sublist ''ms'' ''30 sec''"
    by (simp_all add: sublist_Cons_right)
  have c: "extract_latency (Some ''0 ms'') = Inr (Finite 0)" "is_zero (Finite 0)"
    by (simp_all add: extract_latency_def extract_with_def latency_pattern_def
      unit_pattern_def number_def isdigit_def isspace_def float_group_def
      float_of_numeral_def float_unsigned_def nat_of_digits_def digit_val_def round64_0
      is_zero_def)
  from unit_parser_missing [of "''Mbps''" None] a
  have 1: "extract_bandwidth (Some ''Mbps'') = Inr Nan" by blast
  from unit_parser_missing [of "''10 Gbps''" None] b
  have 2: "extract_bandwidth (Some ''10 Gbps'') = Inr Nan" by blast
  from unit_parser_missing [of "''30 sec''" None] b
  have 3: "extract_latency (Some ''30 sec'') = Inr Nan" by blast
  from unit_parser_missing [of "''0 ms''" None "Finite 0"] c
  have 4: "\<exists>ip fr. re_search latency_pattern ''0 ms'' = Some (Some (ip @ fr)) \<and> is_digits ip \<and>
      is_fraction fr \<and> decimal_value ip fr \<le> pow2 (- 1075)" by blast
  from a b c 1 2 3 4 show ?thesis by (intro conjI)
qed

lemma numeral_chars:
  assumes "is_digits ip" "is_fraction fr" "is_blank ws"
    and c: "\<not> isdigit c" "\<not> isspace c" "c \<noteq> CHR ''.''"
  shows "c \<notin> set (ip @ fr @ ws)"
proof -
  have "c \<notin> set ip"
    using assms(1) c(1) by (auto simp: is_digits_def list_all_iff)
  moreover have "c \<notin> set fr"
  proof (cases fr)
    case Nil
    then show ?thesis by simp
  next
    case (Cons d fp)
    then have "d = CHR ''.''" "list_all isdigit fp"
      using assms(2) by (simp_all add: is_fraction_def is_digits_def)
    then show ?thesis using Cons c(1,3) by (auto simp: list_all_iff)
  qed
  moreover have "c \<notin> set ws"
    using assms(3) c(2) by (auto simp: is_blank_def list_all_iff)
  ultimately show ?thesis by simp
qed

lemma no_char_no_sublist: "c \<in> set u \<Longrightarrow> c \<notin> set s \<Longrightarrow> \<not> sublist u s"
  using set_mono_sublist [of u s] by blast

lemma re_search_skip:
  "\<not> isdigit c \<Longrightarrow> re_search (unit_pattern u) (c # s) = re_search (unit_pattern u) s"
  by (simp add: unit_pattern_def number_def)

lemma re_search_minus:
  "re_search (unit_pattern u) (''-'' @ s) = re_search (unit_pattern u) s"
  using re_search_skip [of "CHR ''-''" u s] by (simp add: isdigit_def del: re_search.simps)

text \<open>
  Claim C4, as stated, fails for letter case: the patterns are compiled without
  \<^verbatim>\<open>re.IGNORECASE\<close>, so \<^verbatim>\<open>10 mbps\<close> and \<^verbatim>\<open>-75 dbm\<close> are missing where \<^verbatim>\<open>10 Mbps\<close> and
  \<^verbatim>\<open>-75 dBm\<close> are parsed.  A sign is captured by the \<^verbatim>\<open>dBm\<close> pattern only: \<^verbatim>\<open>-5%\<close> is 5.
\<close>

theorem unit_parser_case_counterexample:
  "extract_bandwidth (Some ''10 Mbps'') = Inr (Finite 10) \<and>
   extract_bandwidth (Some ''10 mbps'') = Inr Nan \<and>
   extract_signal_strength (Some ''-75 dBm'') = Inr (Finite (- 75)) \<and>
   extract_signal_strength (Some ''-75 dbm'') = Inr Nan \<and>
   extract_percentage (Some ''-5%'') = Inr (Finite 5)"
  by (simp add: extract_bandwidth_def extract_signal_strength_def extract_percentage_def
      extract_with_def mbps_pattern_def kbps_pattern_def signal_pattern_def percent_pattern_def
      unit_pattern_def number_def isdigit_def isspace_def float_group_def
      float_of_numeral_def float_unsigned_def nat_of_digits_def digit_val_def
      round64_10 round64_75 round64_5 float_neg_def)

text \<open>
  Claim C4, amended: every pattern captures digits with an optional point and digits,
  and any amount of white space between numeral and unit gives the same value; the
  \<^verbatim>\<open>dBm\<close> pattern also captures a minus sign, the others leave a minus sign before the
  numeral out of the value; and unit recognition is case-sensitive: the unit written in
  another letter case gives the missing value.
\<close>

theorem unit_parser_spacing:
  assumes "is_digits ip" and "is_fraction fr" and "is_blank ws" and "is_blank ws'"
  shows
   "extract_latency (Some (ip @ fr @ ws @ ''ms'' @ rest)) = Inr (round64 (decimal_value ip fr)) \<and>
    extract_latency (Some (ip @ fr @ ws' @ ''ms'' @ rest)) = Inr (round64 (decimal_value ip fr)) \<and>
    extract_percentage (Some (ip @ fr @ ws @ ''%'' @ rest)) = Inr (round64 (decimal_value ip fr)) \<and>
    extract_percentage (Some (ip @ fr @ ws' @ ''%'' @ rest)) = Inr (round64 (decimal_value ip fr)) \<and>
    extract_bandwidth (Some (ip @ fr @ ws @ ''Mbps'' @ rest)) = Inr (round64 (decimal_value ip fr)) \<and>
    extract_bandwidth (Some (ip @ fr @ ws' @ ''Mbps'' @ rest)) = Inr (round64 (decimal_value ip fr)) \<and>
    extract_bandwidth (Some (ip @ fr @ ws @ ''Kbps'')) = Inr (float_div_const (round64 (decimal_value ip fr)) 1000) \<and>
    extract_bandwidth (Some (ip @ fr @ ws' @ ''Kbps'')) = Inr (float_div_const (round64 (decimal_value ip fr)) 1000) \<and>
    extract_signal_strength (Some (ip @ fr @ ws @ ''dBm'' @ rest)) =
      Inr (round64 (decimal_value ip fr)) \<and>
    extract_signal_strength (Some (ip @ fr @ ws' @ ''dBm'' @ rest)) =
      Inr (round64 (decimal_value ip fr)) \<and>
    extract_signal_strength (Some (''-'' @ ip @ fr @ ws @ ''dBm'' @ rest)) =
      Inr (float_neg (round64 (decimal_value ip fr))) \<and>
    extract_signal_strength (Some (''-'' @ ip @ fr @ ws' @ ''dBm'' @ rest)) =
      Inr (float_neg (round64 (decimal_value ip fr))) \<and>
    extract_latency (Some (''-'' @ ip @ fr @ ws @ ''ms'' @ rest)) =
      Inr (round64 (decimal_value ip fr)) \<and>
    extract_percentage (Some (''-'' @ ip @ fr @ ws @ ''%'' @ rest)) =
      Inr (round64 (decimal_value ip fr)) \<and>
    extract_bandwidth (Some (''-'' @ ip @ fr @ ws @ ''Mbps'' @ rest)) =
      Inr (round64 (decimal_value ip fr)) \<and>
    extract_bandwidth (Some (ip @ fr @ ws @ ''mbps'')) = Inr Nan \<and>
    extract_bandwidth (Some (ip @ fr @ ws @ ''MBPS'')) = Inr Nan \<and>
    extract_bandwidth (Some (ip @ fr @ ws @ ''kbps'')) = Inr Nan \<and>
    extract_signal_strength (Some (ip @ fr @ ws @ ''dbm'')) = Inr Nan \<and>
    extract_signal_strength (Some (ip @ fr @ ws @ ''DBM'')) = Inr Nan \<and>
    extract_latency (Some (ip @ fr @ ws @ ''MS'')) = Inr Nan"
proof -
  have d: "float_group (Some (ip @ fr)) = Inr (round64 (decimal_value ip fr))"
    "float_group (Some (''-'' @ ip @ fr)) = Inr (float_neg (round64 (decimal_value ip fr)))"
    using float_of_numeral_value [OF assms(1,2)] by (simp_all add: float_group_def)
  have unit: "extract_with (unit_pattern u) (Some (ip @ fr @ w @ u @ rest)) =
      Inr (round64 (decimal_value ip fr))"
    and unit_minus: "extract_with (unit_pattern u) (Some (''-'' @ ip @ fr @ w @ u @ rest)) =
      Inr (round64 (decimal_value ip fr))"
    if "is_blank w" "unit_name u" for w u
  proof -
    show "extract_with (unit_pattern u) (Some (ip @ fr @ w @ u @ rest)) =
      Inr (round64 (decimal_value ip fr))"
      by (rule extract_with_unit(2) [OF assms(1,2) that])
    have "re_search (unit_pattern u) (''-'' @ ip @ fr @ w @ u @ rest) = Some (Some (ip @ fr))"
      using extract_with_unit(1) [OF assms(1,2) that, of rest]
      by (simp only: re_search_minus)
    then show "extract_with (unit_pattern u) (Some (''-'' @ ip @ fr @ w @ u @ rest)) =
      Inr (round64 (decimal_value ip fr))"
      using d(1) by (simp add: extract_with_def)
  qed
  have mbps: "extract_bandwidth (Some t) = extract_with (unit_pattern ''Mbps'') (Some t)"
    if "re_search (unit_pattern ''Mbps'') t \<noteq> None" for t
    using that by (auto simp: extract_bandwidth_def extract_with_def mbps_pattern_def)
  have found: "re_search (unit_pattern u) (ip @ fr @ w @ u @ rest) \<noteq> None"
    "re_search (unit_pattern u) (''-'' @ ip @ fr @ w @ u @ rest) \<noteq> None"
    if "is_blank w" "unit_name u" for w u
    using extract_with_unit(1) [OF assms(1,2) that, of rest]
    by (simp_all only: re_search_minus) simp_all
  have kbps: "extract_bandwidth (Some (ip @ fr @ w @ ''Kbps'')) = Inr (float_div_const (round64 (decimal_value ip fr)) 1000)"
    if w: "is_blank w" for w
  proof -
    have "re_search (unit_pattern ''Mbps'') (ip @ fr @ w @ ''Kbps'' @ []) = None"
      using no_M_no_Mbps [OF assms(1,2) w, of "[]"] by (intro re_search_unit_None) simp
    then show ?thesis
      using extract_with_unit(1) [OF assms(1,2) w unit_names(3), of "[]"] d(1)
      by (simp add: extract_bandwidth_def mbps_pattern_def kbps_pattern_def)
  qed
  have sig: "extract_signal_strength (Some (ip @ fr @ w @ ''dBm'' @ rest)) =
      Inr (round64 (decimal_value ip fr))"
    "extract_signal_strength (Some (''-'' @ ip @ fr @ w @ ''dBm'' @ rest)) =
      Inr (float_neg (round64 (decimal_value ip fr)))"
    if w: "is_blank w" for w
    using re_search_first [OF signal_pattern_greedy(1) [OF assms(1,2) w, of rest None]]
      re_search_first [OF signal_pattern_greedy(2) [OF assms(1,2) w, of rest None]] d
    by (simp_all add: extract_signal_strength_def extract_with_def)
  have absent: "\<not> sublist u (ip @ fr @ ws @ t)"
    if "c \<in> set u" "c \<notin> set t" "\<not> isdigit c" "\<not> isspace c" "c \<noteq> CHR ''.''" for c u t
  proof -
    have "c \<notin> set (ip @ fr @ ws @ t)"
      using numeral_chars [OF assms(1,2,3) that(3,4,5)] that(2) by simp
    with that(1) show ?thesis by (rule no_char_no_sublist)
  qed
  have bw_none: "extract_bandwidth (Some (ip @ fr @ ws @ t)) = Inr Nan"
    if "c1 \<in> set ''Mbps''" "c1 \<notin> set t" "c2 \<in> set ''Kbps''" "c2 \<notin> set t" for t c1 c2
  proof -
    have "\<not> sublist ''Mbps'' (ip @ fr @ ws @ t)"
      using that(1,2) by (intro absent [of c1]) (auto simp: isdigit_def isspace_def)
    moreover have "\<not> sublist ''Kbps'' (ip @ fr @ ws @ t)"
      using that(3,4) by (intro absent [of c2]) (auto simp: isdigit_def isspace_def)
    ultimately have "re_search (unit_pattern ''Mbps'') (ip @ fr @ ws @ t) = None"
      "re_search (unit_pattern ''Kbps'') (ip @ fr @ ws @ t) = None"
      by (simp_all add: re_search_unit_None)
    then show ?thesis by (simp add: extract_bandwidth_def mbps_pattern_def kbps_pattern_def)
  qed
  have sig_none: "extract_signal_strength (Some (ip @ fr @ ws @ t)) = Inr Nan"
    if "CHR ''B'' \<notin> set t \<or> CHR ''d'' \<notin> set t" for t
  proof -
    have "\<not> sublist ''dBm'' (ip @ fr @ ws @ t)"
      using that
    proof
      assume "CHR ''B'' \<notin> set t"
      then show ?thesis by (intro absent [of "CHR ''B''"]) (simp_all add: isdigit_def isspace_def)
    next
      assume "CHR ''d'' \<notin> set t"
      then show ?thesis by (intro absent [of "CHR ''d''"]) (simp_all add: isdigit_def isspace_def)
    qed
    then have "re_search signal_pattern (ip @ fr @ ws @ t) = None"
      by (simp add: re_search_signal_None)
    then show ?thesis by (simp add: extract_signal_strength_def extract_with_def)
  qed
  have lat_none: "extract_latency (Some (ip @ fr @ ws @ ''MS'')) = Inr Nan"
  proof -
    have "\<not> sublist ''ms'' (ip @ fr @ ws @ ''MS'')"
      by (rule absent [of "CHR ''m''"]) (simp_all add: isdigit_def isspace_def)
    then have "re_search (unit_pattern ''ms'') (ip @ fr @ ws @ ''MS'') = None"
      by (simp add: re_search_unit_None)
    then show ?thesis by (simp add: extract_latency_def extract_with_def latency_pattern_def)
  qed
  have lat: "extract_latency (Some (ip @ fr @ w @ ''ms'' @ rest)) = Inr (round64 (decimal_value ip fr))"
    "extract_percentage (Some (ip @ fr @ w @ ''%'' @ rest)) = Inr (round64 (decimal_value ip fr))"
    "extract_bandwidth (Some (ip @ fr @ w @ ''Mbps'' @ rest)) = Inr (round64 (decimal_value ip fr))"
    "extract_latency (Some (''-'' @ ip @ fr @ w @ ''ms'' @ rest)) = Inr (round64 (decimal_value ip fr))"
    "extract_percentage (Some (''-'' @ ip @ fr @ w @ ''%'' @ rest)) = Inr (round64 (decimal_value ip fr))"
    "extract_bandwidth (Some (''-'' @ ip @ fr @ w @ ''Mbps'' @ rest)) = Inr (round64 (decimal_value ip fr))"
    if w: "is_blank w" for w
  proof -
    show "extract_latency (Some (ip @ fr @ w @ ''ms'' @ rest)) = Inr (round64 (decimal_value ip fr))"
      using unit [OF w unit_names(1)] by (simp add: extract_latency_def latency_pattern_def)
    show "extract_percentage (Some (ip @ fr @ w @ ''%'' @ rest)) = Inr (round64 (decimal_value ip fr))"
      using unit [OF w unit_names(4)] by (simp add: extract_percentage_def percent_pattern_def)
    show "extract_bandwidth (Some (ip @ fr @ w @ ''Mbps'' @ rest)) = Inr (round64 (decimal_value ip fr))"
      using unit [OF w unit_names(2)] mbps [OF found(1) [OF w unit_names(2)]] by simp
    show "extract_latency (Some (''-'' @ ip @ fr @ w @ ''ms'' @ rest)) = Inr (round64 (decimal_value ip fr))"
      using unit_minus [OF w unit_names(1)] by (simp add: extract_latency_def latency_pattern_def)
    show "extract_percentage (Some (''-'' @ ip @ fr @ w @ ''%'' @ rest)) = Inr (round64 (decimal_value ip fr))"
      using unit_minus [OF w unit_names(4)] by (simp add: extract_percentage_def percent_pattern_def)
    show "extract_bandwidth (Some (''-'' @ ip @ fr @ w @ ''Mbps'' @ rest)) = Inr (round64 (decimal_value ip fr))"
      using unit_minus [OF w unit_names(2)] mbps [OF found(2) [OF w unit_names(2)]] by simp
  qed
  have b1: "extract_bandwidth (Some (ip @ fr @ ws @ ''mbps'')) = Inr Nan"
    by (rule bw_none [of "CHR ''M''" _ "CHR ''K''"]) simp_all
  have b2: "extract_bandwidth (Some (ip @ fr @ ws @ ''MBPS'')) = Inr Nan"
    by (rule bw_none [of "CHR ''b''" _ "CHR ''b''"]) simp_all
  have b3: "extract_bandwidth (Some (ip @ fr @ ws @ ''kbps'')) = Inr Nan"
    by (rule bw_none [of "CHR ''M''" _ "CHR ''K''"]) simp_all
  have s1: "extract_signal_strength (Some (ip @ fr @ ws @ ''dbm'')) = Inr Nan"
    by (rule sig_none) simp
  have s2: "extract_signal_strength (Some (ip @ fr @ ws @ ''DBM'')) = Inr Nan"
    by (rule sig_none) simp
  show ?thesis
    using lat(1) [OF assms(3)] lat(1) [OF assms(4)] lat(2) [OF assms(3)] lat(2) [OF assms(4)]
      lat(3) [OF assms(3)] lat(3) [OF assms(4)] kbps [OF assms(3)] kbps [OF assms(4)]
      sig(1) [OF assms(3)] sig(1) [OF assms(4)] sig(2) [OF assms(3)] sig(2) [OF assms(4)]
      lat(4) [OF assms(3)] lat(5) [OF assms(3)] lat(6) [OF assms(3)]
      b1 b2 b3 s1 s2 lat_none
    by (intro conjI)
qed

theorem unit_parser_spacing_witness:
  "is_digits ''10'' \<and> is_fraction ''.5'' \<and> is_blank ''  '' \<and> is_blank [] \<and>
   extract_latency (Some ''10.5  ms'') = Inr (Finite (21 / 2)) \<and>
   extract_latency (Some ''10.5ms'') = Inr (Finite (21 / 2)) \<and>
   extract_bandwidth (Some ''10.5  Mbps'') = Inr (Finite (21 / 2)) \<and>
   extract_bandwidth (Some ''10.5Mbps'') = Inr (Finite (21 / 2)) \<and>
   extract_signal_strength (Some ''-10.5  dBm'') = Inr (Finite (- (21 / 2))) \<and>
   extract_signal_strength (Some ''-10.5dBm'') = Inr (Finite (- (21 / 2))) \<and>
   extract_percentage (Some ''-10.5  %'') = Inr (Finite (21 / 2)) \<and>
   extract_bandwidth (Some ''10.5  mbps'') = Inr Nan"
proof -
  have h: "is_digits ''10''" "is_fraction ''.5''" "is_blank ''  ''" "is_blank []"
    by (simp_all add: is_digits_def is_fraction_def is_blank_def isdigit_def isspace_def)
  have v: "decimal_value ''10'' ''.5'' = 21 / 2"
    by (simp add: decimal_value_def nat_of_digits_def digit_val_def)
  have n: "float_neg (Finite (21 / 2)) = Finite (- (21 / 2))"
    by (simp add: float_neg_def)
  from unit_parser_spacing [OF h, of "[]"]
  have "extract_latency (Some ''10.5  ms'') = Inr (Finite (21 / 2))"
   "extract_latency (Some ''10.5ms'') = Inr (Finite (21 / 2))"
   "extract_bandwidth (Some ''10.5  Mbps'') = Inr (Finite (21 / 2))"
   "extract_bandwidth (Some ''10.5Mbps'') = Inr (Finite (21 / 2))"
   "extract_signal_strength (Some ''-10.5  dBm'') = Inr (Finite (- (21 / 2)))"
   "extract_signal_strength (Some ''-10.5dBm'') = Inr (Finite (- (21 / 2)))"
   "extract_percentage (Some ''-10.5  %'') = Inr (Finite (21 / 2))"
   "extract_bandwidth (Some ''10.5  mbps'') = Inr Nan"
    unfolding v round64_21_2 n by simp_all
  with h show ?thesis by (intro conjI)
qed

section \<open>Properties of the identifiers\<close>

lemmas identity_eval = create_store_device_id_def region_clean_def py_lower_def lower_char_def
  uppers_def lowers_def py_replace.simps str_int_def str_nat.simps digit_char_def
  agri_device_id_def health_device_id_def create_device_ids_def convert_device_ids_def
  spec_normalize_def spec_safe_char_def isspace_def

lemma replace_char:
  "py_replace [c] new s = concat (map (\<lambda>x. if x = c then new else [x]) s)"
proof (induction s)
  case Nil
  then show ?case by (simp add: py_replace.simps)
next
  case (Cons x xs)
  then show ?case by (subst py_replace.simps) auto
qed

lemma uppers_lowers: "length uppers = length lowers" "set uppers \<inter> set lowers = {}"
  by (simp_all add: uppers_def lowers_def)

lemma dom_uppers: "fst ` set (zip uppers lowers) = set uppers"
  using uppers_lowers(1) by (metis map_fst_zip set_map)

lemma lower_char_not_upper: "lower_char c \<notin> set uppers"
proof (cases "map_of (zip uppers lowers) c")
  case None
  then have "c \<notin> set uppers"
    by (simp add: map_of_eq_None_iff dom_uppers)
  then show ?thesis using None by (simp add: lower_char_def)
next
  case (Some l)
  then have "(c, l) \<in> set (zip uppers lowers)" by (rule map_of_SomeD)
  then have "l \<in> set lowers" by (rule set_zip_rightD)
  then have "l \<notin> set uppers" using uppers_lowers(2) by blast
  then show ?thesis using Some by (simp add: lower_char_def)
qed

lemma lower_char_fixed:
  assumes "c \<notin> set uppers"
  shows "lower_char c = c"
proof -
  have "map_of (zip uppers lowers) c = None"
    using assms by (simp add: map_of_eq_None_iff dom_uppers)
  then show ?thesis by (simp add: lower_char_def)
qed

lemma in_set_replace_char:
  "x \<in> set (py_replace [c] new s) \<Longrightarrow> x \<in> set new \<or> (x \<in> set s \<and> x \<noteq> c)"
  by (induction s) (auto simp: replace_char split: if_splits)

lemma replace_char_absent: "c \<notin> set s \<Longrightarrow> py_replace [c] new s = s"
  by (induction s) (auto simp: replace_char)

lemma set_region_clean:
  assumes "x \<in> set (region_clean r)"
  shows "x \<in> set ''and-'' \<or> (x \<notin> set uppers \<and> x \<noteq> CHR '' '' \<and> x \<noteq> CHR ''&'')"
proof -
  from assms have "x \<in> set ''and'' \<or>
      (x \<in> set (py_replace '' '' ''-'' (py_lower r)) \<and> x \<noteq> CHR ''&'')"
    unfolding region_clean_def by (rule in_set_replace_char)
  then show ?thesis
  proof
    assume "x \<in> set ''and''"
    then show ?thesis by auto
  next
    assume a: "x \<in> set (py_replace '' '' ''-'' (py_lower r)) \<and> x \<noteq> CHR ''&''"
    then have "x \<in> set ''-'' \<or> (x \<in> set (py_lower r) \<and> x \<noteq> CHR '' '')"
      by (intro in_set_replace_char) simp
    then show ?thesis
    proof
      assume "x \<in> set ''-''"
      then show ?thesis by simp
    next
      assume b: "x \<in> set (py_lower r) \<and> x \<noteq> CHR '' ''"
      then obtain z where "x = lower_char z" by (auto simp: py_lower_def)
      then have "x \<notin> set uppers" by (simp add: lower_char_not_upper)
      then show ?thesis using a b by simp
    qed
  qed
qed

lemma region_clean_plain:
  assumes "\<forall>c \<in> set r. c \<notin> set uppers" "CHR '' '' \<notin> set r" "CHR ''&'' \<notin> set r"
  shows "region_clean r = r"
proof -
  have "py_lower r = r"
    using assms(1) by (simp add: py_lower_def lower_char_fixed map_idI)
  then show ?thesis
    using assms(2,3) by (simp add: region_clean_def replace_char_absent)
qed

lemma health_device_id_plain:
  "CHR ''D'' \<notin> set n \<Longrightarrow> py_replace ''Device_'' [] n = n"
proof (induction n)
  case Nil
  then show ?case by (simp add: py_replace.simps)
next
  case (Cons x xs)
  then show ?case by (subst py_replace.simps) auto
qed

lemma health_device_id_strip:
  "CHR ''D'' \<notin> set n \<Longrightarrow> health_device_id (''Device_'' @ n) = ''did:lcore:health-tracker-'' @ n"
  unfolding health_device_id_def
  by (subst py_replace.simps) (simp add: health_device_id_plain)

lemma concat_map_concat:
  "concat (map f (concat (map g xs))) = concat (map (\<lambda>x. concat (map f (g x))) xs)"
  by (induction xs) simp_all

lemma lower_char_eq_plain:
  assumes "c \<notin> set lowers" "c \<notin> set uppers"
  shows "lower_char x = c \<longleftrightarrow> x = c"
proof
  assume l: "lower_char x = c"
  show "x = c"
  proof (cases "map_of (zip uppers lowers) x")
    case None
    then show ?thesis using l by (simp add: lower_char_def)
  next
    case (Some y)
    then have "(x, y) \<in> set (zip uppers lowers)" by (rule map_of_SomeD)
    then have "y \<in> set lowers" by (rule set_zip_rightD)
    moreover have "y = c" using Some l by (simp add: lower_char_def)
    ultimately show ?thesis using assms by simp
  qed
next
  assume "x = c"
  then show "lower_char x = c" using lower_char_fixed [OF assms(2)] by simp
qed

lemma lower_char_space: "lower_char x = CHR '' '' \<longleftrightarrow> x = CHR '' ''"
  by (rule lower_char_eq_plain) (simp_all add: uppers_def lowers_def)

lemma lower_char_amp: "lower_char x = CHR ''&'' \<longleftrightarrow> x = CHR ''&''"
  by (rule lower_char_eq_plain) (simp_all add: uppers_def lowers_def)

lemma region_clean_charwise: "region_clean r = concat (map clean_char r)"
proof -
  have "concat (map (\<lambda>x. if x = CHR ''&'' then ''and'' else [x])
          (if lower_char c = CHR '' '' then ''-'' else [lower_char c])) = clean_char c" for c
    by (simp add: clean_char_def lower_char_space lower_char_amp)
  then show ?thesis
    by (simp add: region_clean_def replace_char py_lower_def concat_map_concat comp_def)
qed

text \<open>
  Claim C7, as stated, fails: the agriculture identifier keeps the key as it is
  (\<^verbatim>\<open>R1\<close> stays upper case), the health identifier only drops the text \<^verbatim>\<open>Device_\<close>, and the
  retail identifier turns \<^verbatim>\<open>&\<close> into \<^verbatim>\<open>and\<close> and keeps the full stop, where the normalisation
  of the specification would give \<^verbatim>\<open>r1\<close>, \<^verbatim>\<open>7-x\<close> and \<^verbatim>\<open>a--b\<close>.
\<close>

theorem identity_not_normalized:
  "create_device_ids [''R1''] = [''did:lcore:agri-R1''] \<and>
   ''did:lcore:agri-'' @ spec_normalize ''R1'' = ''did:lcore:agri-r1'' \<and>
   region_clean ''A & B.'' = ''a-and-b.'' \<and>
   spec_normalize ''A & B.'' = ''a--b'' \<and>
   convert_device_ids [''Device_7 X''] = [''did:lcore:health-tracker-7 X''] \<and>
   spec_normalize ''7 X'' = ''7-x''"
  by (simp add: identity_eval)

text \<open>
  Claim C7, amended: the identifiers are \<^verbatim>\<open>did:lcore:agri-\<close> and the key unchanged,
  \<^verbatim>\<open>did:lcore:health-tracker-\<close> and the key without its occurrences of \<^verbatim>\<open>Device_\<close>, and
  \<^verbatim>\<open>did:lcore:retail-\<close>, the cleaned region, \<^verbatim>\<open>-store-\<close> and the store number, where cleaning
  works character by character: a space becomes a hyphen, \<^verbatim>\<open>&\<close> becomes \<^verbatim>\<open>and\<close>, every other
  character is lower-cased and kept.
\<close>

theorem identity_format:
  "create_device_ids plot_ids = map (\<lambda>k. ''did:lcore:agri-'' @ k) plot_ids \<and>
   convert_device_ids col = map (\<lambda>x. ''did:lcore:health-tracker-'' @ py_replace ''Device_'' [] x) col \<and>
   (CHR ''D'' \<notin> set n \<longrightarrow>
      health_device_id (''Device_'' @ n) = ''did:lcore:health-tracker-'' @ n) \<and>
   create_store_device_id region k =
     ''did:lcore:retail-'' @ concat (map clean_char region) @ ''-store-'' @ str_int k \<and>
   (\<forall>x \<in> set (region_clean region).
      x \<in> set ''and-'' \<or> (x \<notin> set uppers \<and> x \<noteq> CHR '' '' \<and> x \<noteq> CHR ''&'')) \<and>
   ((\<forall>c \<in> set region. c \<notin> set uppers) \<and> CHR '' '' \<notin> set region \<and> CHR ''&'' \<notin> set region \<longrightarrow>
      region_clean region = region)"
proof -
  have a: "create_device_ids plot_ids = map (\<lambda>k. ''did:lcore:agri-'' @ k) plot_ids"
    by (simp add: create_device_ids_def agri_device_id_def)
  have b: "convert_device_ids col =
      map (\<lambda>x. ''did:lcore:health-tracker-'' @ py_replace ''Device_'' [] x) col"
    by (simp add: convert_device_ids_def health_device_id_def)
  have c: "create_store_device_id region k =
     ''did:lcore:retail-'' @ concat (map clean_char region) @ ''-store-'' @ str_int k"
    by (simp add: create_store_device_id_def region_clean_charwise)
  show ?thesis
    using a b c health_device_id_strip [of n] set_region_clean [of _ region]
      region_clean_plain [of region]
    by blast
qed

theorem identity_format_witness:
  "CHR ''D'' \<notin> set ''0042'' \<and>
   health_device_id ''Device_0042'' = ''did:lcore:health-tracker-0042'' \<and>
   create_store_device_id ''A & B.'' 2 = ''did:lcore:retail-a-and-b.-store-2'' \<and>
   list_all (\<lambda>c. c \<notin> set uppers) ''r_1.x'' \<and> CHR '' '' \<notin> set ''r_1.x'' \<and>
   CHR ''&'' \<notin> set ''r_1.x'' \<and> region_clean ''r_1.x'' = ''r_1.x''"
proof -
  have h: "CHR ''D'' \<notin> set ''0042''" "\<forall>c \<in> set ''r_1.x''. c \<notin> set uppers"
    "CHR '' '' \<notin> set ''r_1.x''" "CHR ''&'' \<notin> set ''r_1.x''"
    by (simp_all add: uppers_def)
  from identity_format [of "[]" "[]" "''0042''" "''r_1.x''" 2] h
  have 1: "health_device_id (''Device_'' @ ''0042'') = ''did:lcore:health-tracker-'' @ ''0042''"
    and 2: "region_clean ''r_1.x'' = ''r_1.x''"
    by blast+
  from identity_format [of "[]" "[]" "[]" "''A & B.''" 2]
  have "create_store_device_id ''A & B.'' 2 =
      ''did:lcore:retail-'' @ concat (map clean_char ''A & B.'') @ ''-store-'' @ str_int 2"
    by blast
  then have 3: "create_store_device_id ''A & B.'' 2 = ''did:lcore:retail-a-and-b.-store-2''"
    by (simp add: clean_char_def lower_char_def uppers_def lowers_def str_int_def
        str_nat.simps digit_char_def)
  from h 1 2 3 show ?thesis by (simp add: list_all_iff)
qed


section \<open>The first draws after \<^verbatim>\<open>random.seed(42)\<close>\<close>







section \<open>Determinism of the identifiers\<close>




end
